theory Spec2Isabelle
  imports Complex_Main
begin

section \<open>Strings, characters and numbers of the Python program\<close>

text \<open>
  The program under study is \<^verbatim>\<open>src/meal_planner.py\<close>. A Python \<^verbatim>\<open>str\<close> is
  modelled as an Isabelle \<^typ>\<open>string\<close>: the list of its UTF-8 code units. The character
  classes used by \<^verbatim>\<open>re\<close> and \<^verbatim>\<open>str.strip\<close> (\<^verbatim>\<open>\s\<close>, \<^verbatim>\<open>\d\<close>, case folding under
  \<^verbatim>\<open>re.IGNORECASE\<close>) are modelled on the ASCII range, where they are exactly Python's;
  a code unit above 127 belongs to none of them. The model is therefore exact on every text
  whose non-ASCII characters are neither Unicode white space, nor Unicode decimal digits, nor
  the non-ASCII case variants of the letters i and s.

  A Python \<^verbatim>\<open>float\<close> is modelled by the exact rational number it stands for
  (\<^typ>\<open>rat\<close>): the rounding of IEEE-754 arithmetic and the overflow to \<^verbatim>\<open>inf\<close> are not
  modelled. Logging calls and the tracing decorators do not influence any returned value and
  are left out.
\<close>

definition isspace :: "char \<Rightarrow> bool" where
  \<comment> \<open>\<^verbatim>\<open>str.isspace\<close> and \<^verbatim>\<open>\s\<close> on ASCII: TAB, LF, VT, FF, CR, FS, GS, RS, US, space\<close>
  "isspace c \<longleftrightarrow>
     c \<in> set [CHR 0x09, CHR 0x0A, CHR 0x0B, CHR 0x0C, CHR 0x0D,
               CHR 0x1C, CHR 0x1D, CHR 0x1E, CHR 0x1F, CHR 0x20]"

definition isdigit :: "char \<Rightarrow> bool" where
  \<comment> \<open>\<^verbatim>\<open>\d\<close> on ASCII\<close>
  "isdigit c \<longleftrightarrow> c \<in> set ''0123456789''"

definition ascii_lower :: "char \<Rightarrow> char" where
  \<comment> \<open>the case folding that \<^verbatim>\<open>re.IGNORECASE\<close> applies to both sides of a comparison\<close>
  "ascii_lower c =
     (case map_of (zip ''ABCDEFGHIJKLMNOPQRSTUVWXYZ'' ''abcdefghijklmnopqrstuvwxyz'') c of
        Some l \<Rightarrow> l
      | None \<Rightarrow> c)"

definition strip :: "string \<Rightarrow> string" where
  \<comment> \<open>\<^verbatim>\<open>str.strip()\<close>: white space removed at both ends\<close>
  "strip s = rev (dropWhile isspace (rev (dropWhile isspace s)))"


datatype error = ValueError

definition digit_val :: "char \<Rightarrow> nat" where
  "digit_val c = of_char c - 48"

definition nat_of_digits :: "string \<Rightarrow> nat" where
  "nat_of_digits ds = foldl (\<lambda>n c. 10 * n + digit_val c) 0 ds"

definition py_float :: "string \<Rightarrow> error + rat" where
  \<comment> \<open>\<^verbatim>\<open>float(s)\<close> on unsigned decimal literals: digits with an optional fractional part.
      Python accepts more (signs, exponents, surrounding blanks); the model raises there,
      which can only make a "never raises" statement harder to prove.\<close>
  "py_float s =
     (let ip = takeWhile isdigit s; r = dropWhile isdigit s in
      case r of
        [] \<Rightarrow> if ip = [] then Inl ValueError else Inr (of_nat (nat_of_digits ip))
      | c # fp \<Rightarrow>
          if c = CHR ''.'' \<and> list_all isdigit fp \<and> (ip \<noteq> [] \<or> fp \<noteq> [])
          then Inr (of_nat (nat_of_digits ip) + of_nat (nat_of_digits fp) / 10 ^ length fp)
          else Inl ValueError)"






section \<open>Regular expressions: the backtracking semantics of \<^verbatim>\<open>re\<close>\<close>

text \<open>
  The fragment of regular expressions the program uses: character classes, concatenation,
  the greedy quantifiers \<^verbatim>\<open>?\<close>, \<^verbatim>\<open>*\<close> and \<^verbatim>\<open>+\<close>. \<open>ms r s\<close> lists what remains of \<open>s\<close> after
  each way of matching \<open>r\<close> at the head of \<open>s\<close>, in the order in which a backtracking matcher
  tries them: a greedy quantifier prefers one more iteration. The first element is the match
  that \<^verbatim>\<open>re\<close> reports. An iteration of \<^verbatim>\<open>*\<close> that consumes nothing is not repeated.
\<close>

datatype rx = Eps | Cls "char \<Rightarrow> bool" | Cat rx rx | Opt rx | Star rx

fun ms :: "rx \<Rightarrow> string \<Rightarrow> string list" where
  "ms Eps s = [s]"
| "ms (Cls p) s = (case s of [] \<Rightarrow> [] | c # cs \<Rightarrow> if p c then [cs] else [])"
| "ms (Cat a b) s = concat (map (ms b) (ms a s))"
| "ms (Opt a) s = ms a s @ [s]"
| "ms (Star a) s =
     concat (map (\<lambda>s'. if length s' < length s then ms (Star a) s' else []) (ms a s)) @ [s]"

definition Lit :: "char \<Rightarrow> rx" where
  "Lit c = Cls (\<lambda>x. x = c)"

definition ILit :: "char \<Rightarrow> rx" where
  \<comment> \<open>a literal character of a pattern compiled with \<^verbatim>\<open>re.IGNORECASE\<close>\<close>
  "ILit c = Cls (\<lambda>x. ascii_lower x = ascii_lower c)"

definition Plus :: "rx \<Rightarrow> rx" where
  "Plus a = Cat a (Star a)"

fun cats :: "rx list \<Rightarrow> rx" where
  "cats [] = Eps"
| "cats (r # rs) = Cat r (cats rs)"

definition first :: "rx \<Rightarrow> string \<Rightarrow> string option" where
  \<comment> \<open>the rest of the text after the preferred match at its head, if there is a match\<close>
  "first r s = (case ms r s of [] \<Rightarrow> None | e # _ \<Rightarrow> Some e)"

text \<open>
  Each pattern of the program has at most one capturing group, and the group closes the
  pattern. A pattern is given as the part before the group and the group itself.
  \<open>first_match g xs\<close> walks through the ways \<open>xs\<close> of matching the first part, in order,
  and stops at the first one after which the group matches: it returns the text of group 1
  and the text after the match.
\<close>

fun first_match :: "rx \<Rightarrow> string list \<Rightarrow> (string \<times> string) option" where
  "first_match g [] = None"
| "first_match g (x # xs) =
     (case first g x of
        None \<Rightarrow> first_match g xs
      | Some e \<Rightarrow> Some (take (length x - length e) x, e))"

definition re_match :: "rx \<Rightarrow> rx \<Rightarrow> string \<Rightarrow> (string \<times> string) option" where
  \<comment> \<open>\<^verbatim>\<open>re.match\<close>: the pattern \<open>pre(grp)\<close> at the head of \<open>s\<close>\<close>
  "re_match pre grp s = first_match grp (ms pre s)"

fun re_search :: "rx \<Rightarrow> rx \<Rightarrow> string \<Rightarrow> (string \<times> string \<times> string) option" where
  \<comment> \<open>\<^verbatim>\<open>re.search\<close>: the leftmost match; returns the text before the match, group 1 and the
      text after the match\<close>
  "re_search pre grp [] = map_option (\<lambda>(g, e). ([], g, e)) (re_match pre grp [])"
| "re_search pre grp (c # cs) =
     (case re_match pre grp (c # cs) of
        Some (g, e) \<Rightarrow> Some ([], g, e)
      | None \<Rightarrow> map_option (\<lambda>(b, g, e). (c # b, g, e)) (re_search pre grp cs))"

fun re_sub_empty :: "rx \<Rightarrow> string \<Rightarrow> string" where
  \<comment> \<open>\<^verbatim>\<open>re.sub(r, '', s)\<close>: every match of a left-to-right scan is deleted. The patterns of
      the program never match the empty string; an empty match deletes nothing.\<close>
  "re_sub_empty r [] = []"
| "re_sub_empty r (c # cs) =
     (case first r (c # cs) of
        None \<Rightarrow> c # re_sub_empty r cs
      | Some e \<Rightarrow> if length e < length (c # cs) then re_sub_empty r e else c # re_sub_empty r cs)"

fun re_findall :: "rx \<Rightarrow> rx \<Rightarrow> string \<Rightarrow> string list" where
  \<comment> \<open>\<^verbatim>\<open>re.findall\<close> for a pattern with one group: group 1 of every match of a
      left-to-right scan\<close>
  "re_findall pre grp [] = (case re_match pre grp [] of None \<Rightarrow> [] | Some (g, e) \<Rightarrow> [g])"
| "re_findall pre grp (c # cs) =
     (case re_match pre grp (c # cs) of
        None \<Rightarrow> re_findall pre grp cs
      | Some (g, e) \<Rightarrow>
          g # (if length e < length (c # cs) then re_findall pre grp e else re_findall pre grp cs))"


section \<open>The helper functions\<close>

datatype pyobj = PyStr string | PyInt int | PyNone

text \<open>\<^verbatim>\<open>_parse_price\<close>: \<^verbatim>\<open>re.search(r'\$?(\d+\.\d{2})', text)\<close>.\<close>

definition price_pre :: rx where
  "price_pre = Opt (Lit CHR ''$'')"

definition price_grp :: rx where
  "price_grp = Cat (Plus (Cls isdigit)) (Cat (Lit CHR ''.'') (Cat (Cls isdigit) (Cls isdigit)))"

definition parse_price :: "pyobj \<Rightarrow> error + rat" where
  "parse_price text =
     (case text of
        PyStr t \<Rightarrow>
          (case re_search price_pre price_grp t of
             Some (_, group1, _) \<Rightarrow> py_float group1
           | None \<Rightarrow> Inr 0)
      | _ \<Rightarrow> Inr 0)"

text \<open>\<^verbatim>\<open>_extract_item_name\<close>: \<^verbatim>\<open>re.sub(r'\s*\([^)]*\)', '', item_with_quantity).strip()\<close>.\<close>

definition paren_rx :: rx where
  "paren_rx =
     Cat (Star (Cls isspace))
       (Cat (Lit CHR ''('') (Cat (Star (Cls (\<lambda>c. c \<noteq> CHR '')''))) (Lit CHR '')'')))"

definition extract_item_name :: "string \<Rightarrow> string" where
  "extract_item_name item_with_quantity = strip (re_sub_empty paren_rx item_with_quantity)"


section \<open>The orchestrator\<close>

text \<open>
  The two agents are outside the program. Their answers are parameters of the model, indexed
  by the call that receives them, so that no order between concurrent calls is assumed:
  \<open>planner k prompt\<close> is the text the meal planner returns to call number \<open>k\<close> (one call
  per attempt), and \<open>web k query\<close> is what the web search agent returns to call number
  \<open>k\<close> of one \<^verbatim>\<open>get_price\<close> task. The queries a task issues are returned with its
  price, in the order of issue.
\<close>

abbreviation NL :: char where
  "NL \<equiv> CHR 0x0A"

type_synonym web_search = "nat \<Rightarrow> string \<Rightarrow> pyobj"

definition price_query :: "string \<Rightarrow> string" where
  "price_query x = ''Price of '' @ x @ '' at Walmart in Watertown, Connecticut''"

definition get_price :: "web_search \<Rightarrow> string \<Rightarrow> error + (rat \<times> string list)" where
  "get_price web item_text =
     (let query_full = price_query item_text in
      case parse_price (web 0 query_full) of
        Inl e \<Rightarrow> Inl e
      | Inr price \<Rightarrow>
          if price = 0 then
            (let item_name_only = extract_item_name item_text in
             if item_name_only \<noteq> item_text then
               (let query_fallback = price_query item_name_only in
                case parse_price (web 1 query_fallback) of
                  Inl e \<Rightarrow> Inl e
                | Inr price' \<Rightarrow> Inr (price', [query_full, query_fallback]))
             else Inr (price, [query_full]))
          else Inr (price, [query_full]))"

fun gather_prices ::
  "(nat \<Rightarrow> web_search) \<Rightarrow> nat \<Rightarrow> string list \<Rightarrow> error + (rat \<times> string list) list" where
  \<comment> \<open>\<^verbatim>\<open>asyncio.gather(*[get_price(item) for item in grocery_list_items])\<close>: task \<open>i\<close>
      prices item \<open>i\<close>; the results come back in the order of the items\<close>
  "gather_prices web i [] = Inr []"
| "gather_prices web i (item # items) =
     (case get_price (web i) item of
        Inl e \<Rightarrow> Inl e
      | Inr r \<Rightarrow>
          (case gather_prices web (Suc i) items of
             Inl e \<Rightarrow> Inl e
           | Inr rs \<Rightarrow> Inr (r # rs)))"

definition pricing_fanout ::
  "(nat \<Rightarrow> web_search) \<Rightarrow> string list \<Rightarrow> error + (rat list \<times> rat \<times> string list list)" where
  \<comment> \<open>\<^verbatim>\<open>prices_found\<close> and \<^verbatim>\<open>total_cost = sum(prices_found)\<close>, with the queries of every task\<close>
  "pricing_fanout web grocery_list_items =
     (case gather_prices web 0 grocery_list_items of
        Inl e \<Rightarrow> Inl e
      | Inr results \<Rightarrow>
          (let prices_found = map fst results in
           Inr (prices_found, sum_list prices_found, map snd results)))"

text \<open>
  The grocery list: \<^verbatim>\<open>re.search(r"#+\s*Grocery List:?[\r\n]+((?:- .+\n?)+)", mealplan_text,
  re.IGNORECASE)\<close>, then \<^verbatim>\<open>re.findall(r"- ([^\n]+)", match.group(1))\<close>, and the
  removal of the list by \<^verbatim>\<open>re.sub\<close> with the same pattern, followed by \<^verbatim>\<open>strip()\<close>.
\<close>

definition grocery_pre :: rx where
  "grocery_pre =
     Cat (Plus (ILit CHR ''#''))
       (Cat (Star (Cls isspace))
         (Cat (cats (map ILit ''Grocery List''))
           (Cat (Opt (ILit CHR '':''))
             (Plus (Cls (\<lambda>c. c = CHR 0x0D \<or> c = NL))))))"

definition grocery_grp :: rx where
  "grocery_grp =
     Plus (Cat (ILit CHR ''-'') (Cat (ILit CHR '' '')
       (Cat (Plus (Cls (\<lambda>c. c \<noteq> NL))) (Opt (ILit NL)))))"

definition item_pre :: rx where
  "item_pre = Cat (Lit CHR ''-'') (Lit CHR '' '')"

definition item_grp :: rx where
  "item_grp = Plus (Cls (\<lambda>c. c \<noteq> NL))"

definition extract_grocery_list :: "string \<Rightarrow> string list option" where
  "extract_grocery_list mealplan_text =
     (case re_search grocery_pre grocery_grp mealplan_text of
        None \<Rightarrow> None
      | Some (_, group1, _) \<Rightarrow> Some (re_findall item_pre item_grp group1))"

definition remove_grocery_list :: "string \<Rightarrow> string" where
  "remove_grocery_list mealplan_text =
     strip (re_sub_empty (Cat grocery_pre grocery_grp) mealplan_text)"





















section \<open>Auxiliary notions for the proofs\<close>

definition rejects :: "(char \<Rightarrow> bool) \<Rightarrow> rx \<Rightarrow> bool" where
  "rejects p r \<longleftrightarrow> (\<forall>c cs. p c \<longrightarrow> ms r (c # cs) = [])"

definition digits_head :: "string \<Rightarrow> (string \<times> string) option" where
  "digits_head s =
     (let ds = takeWhile isdigit s in
      case dropWhile isdigit s of
        p # a # b # r \<Rightarrow>
          if ds \<noteq> [] \<and> p = CHR ''.'' \<and> isdigit a \<and> isdigit b then Some (ds @ [p, a, b], r) else None
      | _ \<Rightarrow> None)"


definition paren_head :: "string \<Rightarrow> string option" where
  "paren_head s =
     (case dropWhile isspace s of
        [] \<Rightarrow> None
      | c # cs \<Rightarrow>
          if c = CHR ''(''
          then (case dropWhile (\<lambda>c. c \<noteq> CHR '')'') cs of [] \<Rightarrow> None | _ # r \<Rightarrow> Some r)
          else None)"

definition has_segment :: "string \<Rightarrow> bool" where
  "has_segment s \<longleftrightarrow> (\<exists>a b c. s = a @ CHR ''('' # b @ CHR '')'' # c)"

definition price_value :: "pyobj \<Rightarrow> rat" where
  "price_value v = (case parse_price v of Inr p \<Rightarrow> p | Inl _ \<Rightarrow> 0)"

definition item_result :: "web_search \<Rightarrow> string \<Rightarrow> rat \<times> string list" where
  "item_result w item =
     (if price_value (w 0 (price_query item)) = 0 \<and> extract_item_name item \<noteq> item
      then (price_value (w 1 (price_query (extract_item_name item))),
            [price_query item, price_query (extract_item_name item)])
      else (price_value (w 0 (price_query item)), [price_query item]))"

definition c4_web :: "nat \<Rightarrow> web_search" where
  "c4_web i k query =
     (if query = price_query ''Milk (1 gallon)'' then PyStr ''$3.50''
      else if query = price_query ''Rice'' \<and> k = 0 then PyStr ''no data''
      else if query = price_query ''Rice'' then PyStr ''$1.20''
      else PyStr ''no data'')"

definition c3_web :: "nat \<Rightarrow> web_search" where
  "c3_web i k query =
     (if query = price_query ''Milk (1 gallon)'' then PyStr ''$3.50''
      else if query = price_query ''Rice'' then PyStr ''$1.20''
      else PyStr ''no data'')"



abbreviation crlf :: "char \<Rightarrow> bool" where
  "crlf \<equiv> (\<lambda>c. c = CHR 0x0D \<or> c = NL)"

abbreviation not_nl :: "char \<Rightarrow> bool" where
  "not_nl \<equiv> (\<lambda>c. c \<noteq> NL)"

definition header_rest :: "string \<Rightarrow> string option" where
  "header_rest s =
     (case s of [] \<Rightarrow> None
      | c # cs \<Rightarrow>
          if c = CHR ''#'' then
            (let x = dropWhile isspace (dropWhile (\<lambda>c. c = CHR ''#'') cs) in
             if 12 \<le> length x \<and> map ascii_lower (take 12 x) = ''grocery list''
             then Some (case drop 12 x of [] \<Rightarrow> [] | y # z \<Rightarrow> if y = CHR '':'' then z else y # z)
             else None)
          else None)"

definition item_head :: "string \<Rightarrow> string option" where
  "item_head s =
     (case s of
        a # b # c # cs \<Rightarrow>
          if a = CHR ''-'' \<and> b = CHR '' '' \<and> c \<noteq> NL
          then Some (case dropWhile not_nl cs of [] \<Rightarrow> [] | _ # r \<Rightarrow> r)
          else None
      | _ \<Rightarrow> None)"

function block_end :: "string \<Rightarrow> string" where
  "block_end s =
     (case item_head s of
        None \<Rightarrow> s
      | Some r \<Rightarrow> if length r < length s then block_end r else s)"
  by pat_completeness auto

termination
  by (relation "measure length") auto

definition grocery_head :: "string \<Rightarrow> (string \<times> string) option" where
  "grocery_head s =
     (case header_rest s of
        None \<Rightarrow> None
      | Some z \<Rightarrow>
          (case z of [] \<Rightarrow> None
           | c # cs \<Rightarrow>
               if crlf c then
                 (let x = dropWhile crlf cs in
                  case item_head x of
                    None \<Rightarrow> None
                  | Some r \<Rightarrow> Some (take (length x - length (block_end r)) x, block_end r))
               else None))"

abbreviation item_rx :: rx where
  "item_rx \<equiv> Cat (ILit CHR ''-'') (Cat (ILit CHR '' '')
       (Cat (Plus (Cls not_nl)) (Opt (ILit NL))))"

definition gl_rx :: rx where
  "gl_rx = cats (map ILit ''Grocery List'')"

definition words_rx :: rx where
  "words_rx = Cat gl_rx (Cat (Opt (ILit CHR '':'')) (Plus (Cls crlf)))"

definition grocery_at :: "string \<Rightarrow> bool" where
  "grocery_at s \<longleftrightarrow>
     (\<exists>n ws w colon nls c rest.
        s = replicate (Suc n) CHR ''#'' @ ws @ w @ colon @ nls @ ''- '' @ c # rest \<and>
        list_all isspace ws \<and> map ascii_lower w = ''grocery list'' \<and>
        (colon = [] \<or> colon = '':'') \<and> nls \<noteq> [] \<and> list_all crlf nls \<and> c \<noteq> NL)"


definition item_lines :: "string list \<Rightarrow> string" where
  "item_lines items = concat (map (\<lambda>it. ''- '' @ it @ [NL]) items)"




declare ms.simps(5) [simp del]

lemma ms_Star_Cls_Nil [simp]: "ms (Star (Cls p)) [] = [[]]"
  by (simp add: ms.simps(5))

lemma ms_Star_Cls_Cons [simp]:
  "ms (Star (Cls p)) (c # cs) = (if p c then ms (Star (Cls p)) cs @ [c # cs] else [c # cs])"
  by (simp add: ms.simps(5))

lemma ms_length: "x \<in> set (ms r s) \<Longrightarrow> length x \<le> length s"
proof (induction r s arbitrary: x rule: ms.induct)
  case (1 s) then show ?case by simp
next
  case (2 p s) then show ?case by (auto split: list.splits if_splits)
next
  case (3 a b s)
  then obtain y where "y \<in> set (ms a s)" "x \<in> set (ms b y)" by auto
  with 3 show ?case by (meson le_trans)
next
  case (4 a s) then show ?case by auto
next
  case (5 a s)
  from 5(3) show ?case
    by (auto simp: ms.simps(5)[of a s] split: if_splits dest!: 5(2))
qed

lemma greedy_then: 
  assumes "rejects p b"
  shows "concat (map (ms b) (ms (Star (Cls p)) s)) = ms b (dropWhile p s)"
  using assms by (induction s) (auto simp: rejects_def)

lemma ms_Cat_Star_Cls: "rejects p b \<Longrightarrow> ms (Cat (Star (Cls p)) b) s = ms b (dropWhile p s)"
  by (simp add: greedy_then)

lemma ms_Cat_Plus_Cls:
  "rejects p b \<Longrightarrow> ms (Cat (Plus (Cls p)) b) s =
     (case s of [] \<Rightarrow> [] | c # cs \<Rightarrow> if p c then ms b (dropWhile p cs) else [])"
  by (cases s) (simp_all add: Plus_def greedy_then)

lemma first_Star_Cls [simp]: "first (Star (Cls p)) s = Some (dropWhile p s)"
  by (induction s) (auto simp: first_def split: list.splits)

lemma all_less_drop_Cons:
  "(\<forall>j<Suc n. P (drop j (c # cs))) \<longleftrightarrow> P (c # cs) \<and> (\<forall>j<n. P (drop j cs))"
  by (simp add: All_less_Suc2)

lemma all_le_drop_Cons:
  "(\<forall>j\<le>length (c # cs). P (drop j (c # cs))) \<longleftrightarrow> P (c # cs) \<and> (\<forall>j\<le>length cs. P (drop j cs))"
  using all_less_drop_Cons[where n = "Suc (length cs)" and P = P and c = c and cs = cs] by (simp add: less_Suc_eq_le)

lemma re_search_None_iff:
  "re_search pre grp s = None \<longleftrightarrow> (\<forall>j\<le>length s. re_match pre grp (drop j s) = None)"
proof (induction s)
  case Nil
  then show ?case by (simp split: option.splits)
next
  case (Cons c cs)
  show ?case
    using Cons all_le_drop_Cons[where P = "\<lambda>x. re_match pre grp x = None" and c = c and cs = cs]
    by (cases "re_match pre grp (c # cs)") (simp_all split: prod.splits)
qed

lemma re_search_Some_iff:
  "re_search pre grp s = Some (b, g, e) \<longleftrightarrow>
     (length b \<le> length s \<and> b = take (length b) s \<and>
      re_match pre grp (drop (length b) s) = Some (g, e) \<and>
      (\<forall>j<length b. re_match pre grp (drop j s) = None))"
proof (induction s arbitrary: b)
  case Nil
  then show ?case by (cases "re_match pre grp []") auto
next
  case (Cons c cs)
  show ?case
  proof (cases b)
    case Nil
    then show ?thesis
      by (cases "re_match pre grp (c # cs)") auto
  next
    case b: (Cons c' b')
    show ?thesis
    proof (cases "re_match pre grp (c # cs)")
      case None
      have "re_search pre grp (c # cs) = Some (b, g, e) \<longleftrightarrow>
            c' = c \<and> re_search pre grp cs = Some (b', g, e)"
        using None b by (cases "re_search pre grp cs") auto
      then show ?thesis
        unfolding b length_Cons
        using None Cons.IH[of b']
          all_less_drop_Cons[where n = "length b'" and P = "\<lambda>x. re_match pre grp x = None" and c = c and cs = cs]
        by auto
    next
      case (Some a)
      then show ?thesis
        unfolding b length_Cons
        using all_less_drop_Cons[where n = "length b'" and P = "\<lambda>x. re_match pre grp x = None" and c = c and cs = cs]
        by (cases a) simp
    qed
  qed
qed

lemma not_isdigit_dot [simp]: "\<not> isdigit CHR ''.''" "\<not> isdigit CHR ''$''"
  by (simp_all add: isdigit_def)

lemma first_Cls [simp]:
  "first (Cls p) [] = None"
  "first (Cls p) (c # cs) = (if p c then Some cs else None)"
  by (simp_all add: first_def)

lemma rejects_Cat_Cls: "(\<And>c. p c \<Longrightarrow> \<not> q c) \<Longrightarrow> rejects p (Cat (Cls q) b)"
  by (auto simp: rejects_def)

lemma rejects_Cls: "(\<And>c. p c \<Longrightarrow> \<not> q c) \<Longrightarrow> rejects p (Cls q)"
  by (auto simp: rejects_def)

lemma ms_dot_two_digits:
  "ms (Cat (Lit CHR ''.'') (Cat (Cls isdigit) (Cls isdigit))) x =
     (case x of
        p # a # b # r \<Rightarrow> if p = CHR ''.'' \<and> isdigit a \<and> isdigit b then [r] else []
      | _ \<Rightarrow> [])"
  by (auto simp: Lit_def split: list.splits)

lemma ms_price_grp:
  "ms price_grp s =
     (case s of [] \<Rightarrow> []
      | c # cs \<Rightarrow>
          if isdigit c then
            (case dropWhile isdigit cs of
               p # a # b # r \<Rightarrow> if p = CHR ''.'' \<and> isdigit a \<and> isdigit b then [r] else []
             | _ \<Rightarrow> [])
          else [])"
proof -
  have r: "rejects isdigit (Cat (Lit CHR ''.'') (Cat (Cls isdigit) (Cls isdigit)))"
    unfolding Lit_def by (rule rejects_Cat_Cls) auto
  show ?thesis
    unfolding price_grp_def ms_Cat_Plus_Cls[OF r] ms_dot_two_digits ..
qed

lemma take_length_diff: "take (length (xs @ ys) - length ys) (xs @ ys) = xs"
  by simp

lemma digits_head_Some_iff:
  "digits_head s = Some (g, r) \<longleftrightarrow>
     (\<exists>ds a b. s = ds @ [CHR ''.'', a, b] @ r \<and> g = ds @ [CHR ''.'', a, b] \<and>
        ds \<noteq> [] \<and> list_all isdigit ds \<and> isdigit a \<and> isdigit b)"
  (is "?L \<longleftrightarrow> ?R")
proof
  assume l: ?L
  then obtain a b where dr: "dropWhile isdigit s = CHR ''.'' # a # b # r"
    and g: "g = takeWhile isdigit s @ [CHR ''.'', a, b]"
    and d: "takeWhile isdigit s \<noteq> []" "isdigit a" "isdigit b"
    by (auto simp: digits_head_def Let_def split: list.splits if_splits)
  have "s = takeWhile isdigit s @ dropWhile isdigit s" by simp
  then have s: "s = takeWhile isdigit s @ [CHR ''.'', a, b] @ r" using dr by simp
  have "list_all isdigit (takeWhile isdigit s)"
    by (simp add: list_all_iff) (meson set_takeWhileD)
  with s g d show ?R by blast
next
  assume ?R
  then obtain ds a b where s: "s = ds @ [CHR ''.'', a, b] @ r" and g: "g = ds @ [CHR ''.'', a, b]"
    and d: "ds \<noteq> []" "list_all isdigit ds" "isdigit a" "isdigit b" by blast
  have t: "takeWhile isdigit s = ds" using s d(2)
    by (simp add: list_all_iff takeWhile_tail)
  have dr: "dropWhile isdigit s = [CHR ''.'', a, b] @ r" using s d(2)
    by (simp add: list_all_iff dropWhile_append3)
  show ?L unfolding digits_head_def Let_def t dr using d g by simp
qed

lemma digits_head_split: "digits_head s = Some (g, r) \<Longrightarrow> s = g @ r"
  unfolding digits_head_Some_iff by auto

lemma digits_head_Nil [simp]: "digits_head [] = None"
  by (simp add: digits_head_def)

lemma digits_head_nondigit: "\<not> isdigit c \<Longrightarrow> digits_head (c # r) = None"
  by (simp add: digits_head_def split: list.splits)

lemma first_price_grp:
  "first price_grp s = map_option snd (digits_head s)"
proof (cases s)
  case Nil
  then show ?thesis by (simp add: first_def ms_price_grp)
next
  case (Cons c cs)
  show ?thesis
  proof (cases "isdigit c")
    case False
    with Cons show ?thesis by (simp add: first_def ms_price_grp digits_head_nondigit)
  next
    case True
    have shape: "map_option snd (case d of
          p # a # b # r \<Rightarrow> if C p a b then Some (G p a b, r) else None | _ \<Rightarrow> None)
       = (case (case d of p # a # b # r \<Rightarrow> if C p a b then [r] else [] | _ \<Rightarrow> []) of
            [] \<Rightarrow> None | e # _ \<Rightarrow> Some e)"
      for d :: string and C and G :: "char \<Rightarrow> char \<Rightarrow> char \<Rightarrow> string"
      by (simp split: list.splits)
    have "digits_head (c # cs) =
       (case dropWhile isdigit cs of
          p # a # b # r \<Rightarrow>
            if p = CHR ''.'' \<and> isdigit a \<and> isdigit b
            then Some ((c # takeWhile isdigit cs) @ [p, a, b], r) else None
        | _ \<Rightarrow> None)"
      using True by (simp add: digits_head_def cong: list.case_cong)
    moreover have "ms price_grp (c # cs) =
            (case dropWhile isdigit cs of
               p # a # b # r \<Rightarrow> if p = CHR ''.'' \<and> isdigit a \<and> isdigit b then [r] else []
             | _ \<Rightarrow> [])"
      using True by (simp add: ms_price_grp)
    ultimately show ?thesis
      unfolding Cons first_def
      using shape[of "\<lambda>p a b. p = CHR ''.'' \<and> isdigit a \<and> isdigit b"
                     "\<lambda>p a b. (c # takeWhile isdigit cs) @ [p, a, b]" "dropWhile isdigit cs"]
      by simp
  qed
qed

lemma first_match_price_grp: "first_match price_grp [x] = digits_head x"
proof (cases "digits_head x")
  case None
  then show ?thesis by (simp add: first_price_grp)
next
  case (Some a)
  obtain g r where a: "a = (g, r)" by (cases a)
  with Some have "x = g @ r" by (simp add: digits_head_split)
  with Some a show ?thesis by (simp add: first_price_grp)
qed

lemma re_match_price:
  "re_match price_pre price_grp s =
     (case s of [] \<Rightarrow> None | c # r \<Rightarrow> if c = CHR ''$'' then digits_head r else digits_head s)"
proof (cases s)
  case Nil
  then show ?thesis
    by (simp add: re_match_def price_pre_def Lit_def first_price_grp)
next
  case (Cons c r)
  show ?thesis
  proof (cases "c = CHR ''$''")
    case True
    have "first_match price_grp [r, CHR ''$'' # r] = digits_head r"
      using first_match_price_grp[of r] first_match_price_grp[of "CHR ''$'' # r"]
      by (simp add: digits_head_nondigit split: option.splits)
    with True Cons show ?thesis
      by (simp add: re_match_def price_pre_def Lit_def)
  next
    case False
    with Cons show ?thesis
      using first_match_price_grp[of s]
      by (simp add: re_match_def price_pre_def Lit_def)
  qed
qed






lemma py_float_price:
  assumes "ds \<noteq> []" "list_all isdigit ds" "isdigit a" "isdigit b"
  shows "py_float (ds @ [CHR ''.'', a, b]) =
           Inr (of_nat (nat_of_digits ds) + of_nat (nat_of_digits [a, b]) / 100)"
proof -
  have t: "takeWhile isdigit (ds @ [CHR ''.'', a, b]) = ds" using assms(2)
    by (simp add: list_all_iff takeWhile_tail)
  have dr: "dropWhile isdigit (ds @ [CHR ''.'', a, b]) = [CHR ''.'', a, b]" using assms(2)
    by (simp add: list_all_iff dropWhile_append3)
  show ?thesis
    unfolding py_float_def Let_def t dr using assms by simp
qed



lemma re_search_price_group:
  assumes "re_search price_pre price_grp t = Some (b, g, e)"
  shows "\<exists>ds a b. g = ds @ [CHR ''.'', a, b] \<and> ds \<noteq> [] \<and> list_all isdigit ds \<and> isdigit a \<and> isdigit b"
proof -
  from assms have m: "re_match price_pre price_grp (drop (length b) t) = Some (g, e)"
    by (simp add: re_search_Some_iff)
  then obtain s where "digits_head s = Some (g, e)"
    by (auto simp: re_match_price split: list.splits if_splits)
  then show ?thesis unfolding digits_head_Some_iff by blast
qed

lemma parse_price_total: "\<exists>v. parse_price x = Inr v"
proof (cases x)
  case (PyStr t)
  show ?thesis
  proof (cases "re_search price_pre price_grp t")
    case None
    with PyStr show ?thesis by (simp add: parse_price_def)
  next
    case (Some r)
    obtain b g e where r: "r = (b, g, e)" by (cases r)
    from re_search_price_group[OF Some[unfolded r]] py_float_price
    obtain v where "py_float g = Inr v" by blast
    with PyStr Some r show ?thesis by (simp add: parse_price_def)
  qed
qed (simp_all add: parse_price_def)






lemma not_isspace_paren [simp]: "\<not> isspace CHR ''(''" "\<not> isspace CHR '')''"
  by (simp_all add: isspace_def)

lemma dropWhile_rparen:
  "dropWhile (\<lambda>c. c \<noteq> CHR '')'') s = x # r \<Longrightarrow> x = CHR '')''"
  using hd_dropWhile[of "\<lambda>c. c \<noteq> CHR '')''" s] by auto

lemma ms_until_rparen:
  "ms (Cat (Star (Cls (\<lambda>c. c \<noteq> CHR '')''))) (Lit CHR '')'')) s =
     (case dropWhile (\<lambda>c. c \<noteq> CHR '')'') s of [] \<Rightarrow> [] | _ # r \<Rightarrow> [r])"
proof -
  have r: "rejects (\<lambda>c. c \<noteq> CHR '')'') (Lit CHR '')'')"
    unfolding Lit_def by (rule rejects_Cls) simp
  show ?thesis
  proof (cases "dropWhile (\<lambda>c. c \<noteq> CHR '')'') s")
    case Nil
    show ?thesis unfolding ms_Cat_Star_Cls[OF r] Nil by (simp add: Lit_def)
  next
    case (Cons x r')
    have x: "x = CHR '')''" using dropWhile_rparen[OF Cons] .
    show ?thesis unfolding ms_Cat_Star_Cls[OF r] Cons x by (simp add: Lit_def)
  qed
qed

lemma ms_paren_rx:
  "ms paren_rx s = (case paren_head s of None \<Rightarrow> [] | Some e \<Rightarrow> [e])"
proof -
  have r: "rejects isspace (Cat (Lit CHR ''('')
       (Cat (Star (Cls (\<lambda>c. c \<noteq> CHR '')''))) (Lit CHR '')'')))"
    unfolding Lit_def by (rule rejects_Cat_Cls) auto
  have inner: "ms (Cat (Lit CHR ''('') (Cat (Star (Cls (\<lambda>c. c \<noteq> CHR '')''))) (Lit CHR '')''))) x =
     (case x of [] \<Rightarrow> []
      | c # cs \<Rightarrow> if c = CHR ''(''
          then (case dropWhile (\<lambda>c. c \<noteq> CHR '')'') cs of [] \<Rightarrow> [] | _ # r \<Rightarrow> [r]) else [])" for x
    using ms_until_rparen by (cases x) (simp_all add: Lit_def)
  show ?thesis
  proof (cases "dropWhile isspace s")
    case Nil
    show ?thesis
      unfolding paren_rx_def ms_Cat_Star_Cls[OF r] inner paren_head_def Nil by simp
  next
    case (Cons c cs)
    have shape: "(case d of [] \<Rightarrow> [] | x # r \<Rightarrow> [r]) =
        (case (case d of [] \<Rightarrow> None | x # xa \<Rightarrow> Some xa) of None \<Rightarrow> [] | Some e \<Rightarrow> [e])"
      for d :: string by (cases d) simp_all
    show ?thesis
      unfolding paren_rx_def ms_Cat_Star_Cls[OF r] inner paren_head_def Cons
      using shape[of "dropWhile (\<lambda>c. c \<noteq> CHR '')'') cs"] by simp
  qed
qed

lemma first_paren_rx: "first paren_rx s = paren_head s"
  by (simp add: first_def ms_paren_rx split: option.split)

lemma paren_head_Some_iff:
  "paren_head s = Some e \<longleftrightarrow>
     (\<exists>ws b. s = ws @ CHR ''('' # b @ CHR '')'' # e \<and> list_all isspace ws \<and> CHR '')'' \<notin> set b)"
  (is "?L \<longleftrightarrow> ?R")
proof
  assume l: ?L
  obtain cs where d1: "dropWhile isspace s = CHR ''('' # cs"
  proof (cases "dropWhile isspace s")
    case Nil
    with l show ?thesis by (simp add: paren_head_def)
  next
    case (Cons c cs)
    with l have "c = CHR ''(''" by (simp add: paren_head_def split: if_splits)
    with Cons that show ?thesis by simp
  qed
  have d3: "dropWhile (\<lambda>c. c \<noteq> CHR '')'') cs = CHR '')'' # e"
  proof (cases "dropWhile (\<lambda>c. c \<noteq> CHR '')'') cs")
    case Nil
    with l d1 show ?thesis by (simp add: paren_head_def)
  next
    case (Cons x r)
    with l d1 have "r = e" by (simp add: paren_head_def)
    with Cons dropWhile_rparen[OF Cons] show ?thesis by simp
  qed
  have "s = takeWhile isspace s @ dropWhile isspace s" by simp
  also have "dropWhile isspace s = CHR ''('' # takeWhile (\<lambda>c. c \<noteq> CHR '')'') cs @ dropWhile (\<lambda>c. c \<noteq> CHR '')'') cs"
    using d1 by simp
  finally have "s = takeWhile isspace s @ CHR ''('' # takeWhile (\<lambda>c. c \<noteq> CHR '')'') cs @ CHR '')'' # e"
    using d3 by simp
  moreover have "list_all isspace (takeWhile isspace s)"
    by (simp add: list_all_iff) (meson set_takeWhileD)
  moreover have "CHR '')'' \<notin> set (takeWhile (\<lambda>c. c \<noteq> CHR '')'') cs)"
    by (auto dest: set_takeWhileD)
  ultimately show ?R by blast
next
  assume ?R
  then obtain ws b where s: "s = ws @ CHR ''('' # b @ CHR '')'' # e"
    and w: "list_all isspace ws" and b: "CHR '')'' \<notin> set b" by blast
  have d1: "dropWhile isspace s = CHR ''('' # b @ CHR '')'' # e"
    using s w by (simp add: list_all_iff dropWhile_append3)
  have d2: "dropWhile (\<lambda>c. c \<noteq> CHR '')'') (b @ CHR '')'' # e) = CHR '')'' # e"
    using b by (auto simp: dropWhile_append3)
  show ?L unfolding paren_head_def d1 using d2 by simp
qed

lemma paren_head_length: "paren_head s = Some e \<Longrightarrow> length e < length s"
  unfolding paren_head_Some_iff by auto

lemma re_sub_paren_Cons:
  "re_sub_empty paren_rx (c # cs) =
     (case paren_head (c # cs) of None \<Rightarrow> c # re_sub_empty paren_rx cs | Some e \<Rightarrow> re_sub_empty paren_rx e)"
  using paren_head_length[of "c # cs"]
  by (simp add: first_paren_rx split: option.split)

declare re_sub_empty.simps(2) [simp del]

lemma paren_head_has_segment: "paren_head s = Some e \<Longrightarrow> has_segment s"
  unfolding paren_head_Some_iff has_segment_def by blast

lemma has_segment_Cons: "has_segment cs \<Longrightarrow> has_segment (c # cs)"
  unfolding has_segment_def by (metis append_Cons)

lemma re_sub_paren_id: "\<not> has_segment s \<Longrightarrow> re_sub_empty paren_rx s = s"
proof (induction s)
  case Nil
  then show ?case by simp
next
  case (Cons c cs)
  then have "paren_head (c # cs) = None" "\<not> has_segment cs"
    using paren_head_has_segment[of "c # cs"] has_segment_Cons[of cs c]
    by (cases "paren_head (c # cs)"; auto)+
  with Cons.IH show ?case by (simp add: re_sub_paren_Cons)
qed

lemma set_re_sub_paren: "set (re_sub_empty paren_rx s) \<subseteq> set s"
proof (induction s rule: length_induct)
  case (1 s)
  show ?case
  proof (cases s)
    case Nil
    then show ?thesis by simp
  next
    case (Cons c cs)
    show ?thesis
    proof (cases "paren_head (c # cs)")
      case None
      with 1 Cons show ?thesis by (auto simp: re_sub_paren_Cons)
    next
      case (Some e)
      then obtain ws b where "c # cs = ws @ CHR ''('' # b @ CHR '')'' # e"
        unfolding paren_head_Some_iff by blast
      then have "set e \<subseteq> set s" "length e < length s" unfolding Cons by (auto simp: Cons[symmetric])
      with 1 have "set (re_sub_empty paren_rx e) \<subseteq> set s" by blast
      with Some Cons show ?thesis by (simp add: re_sub_paren_Cons)
    qed
  qed
qed

lemma has_segment_Cons_iff:
  "has_segment (c # cs) \<longleftrightarrow> has_segment cs \<or> (c = CHR ''('' \<and> CHR '')'' \<in> set cs)"
  (is "?L \<longleftrightarrow> ?R")
proof
  assume ?L
  then obtain a b d where s: "c # cs = a @ CHR ''('' # b @ CHR '')'' # d"
    unfolding has_segment_def by blast
  show ?R
  proof (cases a)
    case Nil
    with s show ?thesis by auto
  next
    case (Cons x a')
    with s have "cs = a' @ CHR ''('' # b @ CHR '')'' # d" by simp
    then show ?thesis unfolding has_segment_def by blast
  qed
next
  assume ?R
  then show ?L
  proof
    assume "has_segment cs" then show ?L by (rule has_segment_Cons)
  next
    assume "c = CHR ''('' \<and> CHR '')'' \<in> set cs"
    then obtain b d where "cs = b @ CHR '')'' # d" "c = CHR ''(''" by (meson split_list)
    then have "c # cs = [] @ CHR ''('' # b @ CHR '')'' # d" by simp
    then show ?L unfolding has_segment_def by blast
  qed
qed

lemma paren_head_open_None: "paren_head (CHR ''('' # cs) = None \<Longrightarrow> CHR '')'' \<notin> set cs"
proof
  assume n: "paren_head (CHR ''('' # cs) = None" and "CHR '')'' \<in> set cs"
  then obtain b d where "cs = b @ CHR '')'' # d" "CHR '')'' \<notin> set b" by (meson split_list_first)
  then have "CHR ''('' # cs = [] @ CHR ''('' # b @ CHR '')'' # d \<and> list_all isspace [] \<and> CHR '')'' \<notin> set b"
    by simp
  then have "paren_head (CHR ''('' # cs) = Some d" unfolding paren_head_Some_iff by blast
  with n show False by simp
qed

lemma no_segment_re_sub_paren: "\<not> has_segment (re_sub_empty paren_rx s)"
proof (induction s rule: length_induct)
  case (1 s)
  show ?case
  proof (cases s)
    case Nil
    then show ?thesis by (simp add: has_segment_def)
  next
    case (Cons c cs)
    show ?thesis
    proof (cases "paren_head (c # cs)")
      case None
      have ih: "\<not> has_segment (re_sub_empty paren_rx cs)" using 1 Cons by simp
      have "\<not> (c = CHR ''('' \<and> CHR '')'' \<in> set (re_sub_empty paren_rx cs))"
        using None paren_head_open_None[of cs] set_re_sub_paren[of cs] by auto
      with ih None Cons show ?thesis
        by (simp add: re_sub_paren_Cons has_segment_Cons_iff)
    next
      case (Some e)
      then have "length e < length s" using paren_head_length[OF Some] Cons by simp
      with 1 have "\<not> has_segment (re_sub_empty paren_rx e)" by blast
      with Some Cons show ?thesis by (simp add: re_sub_paren_Cons)
    qed
  qed
qed

lemma rev_dropWhile_rev: "rev (dropWhile P (rev t)) @ rev (takeWhile P (rev t)) = t"
proof -
  have "rev (takeWhile P (rev t) @ dropWhile P (rev t)) = t"
    by (simp only: takeWhile_dropWhile_id rev_rev_ident)
  then show ?thesis by (simp only: rev_append)
qed

lemma has_segment_Nil [simp]: "\<not> has_segment []"
  by (simp add: has_segment_def)

lemma strip_decomp: "\<exists>p q. s = p @ strip s @ q"
proof -
  let ?t = "dropWhile isspace s"
  have "?t = strip s @ rev (takeWhile isspace (rev ?t))"
    unfolding strip_def by (simp only: rev_dropWhile_rev)
  moreover have "s = takeWhile isspace s @ ?t" by simp
  ultimately have "s = takeWhile isspace s @ strip s @ rev (takeWhile isspace (rev ?t))"
    by simp
  then show ?thesis by blast
qed

lemma has_segment_infix: "has_segment t \<Longrightarrow> has_segment (p @ t @ q)"
proof -
  assume "has_segment t"
  then obtain a b c where "t = a @ CHR ''('' # b @ CHR '')'' # c"
    unfolding has_segment_def by blast
  then have "p @ t @ q = (p @ a) @ CHR ''('' # b @ CHR '')'' # (c @ q)" by simp
  then show ?thesis unfolding has_segment_def by blast
qed

lemma has_segment_strip: "has_segment (strip s) \<Longrightarrow> has_segment s"
  using strip_decomp[of s] has_segment_infix[of "strip s"] by metis

lemma dropWhile_fixed: "s = [] \<or> \<not> P (hd s) \<Longrightarrow> dropWhile P s = s"
  by (cases s) auto

lemma strip_ends:
  "strip s = [] \<or> (\<not> isspace (hd (strip s)) \<and> \<not> isspace (last (strip s)))"
proof (cases "strip s = []")
  case True
  then show ?thesis by simp
next
  case False
  let ?t = "dropWhile isspace s"
  let ?u = "dropWhile isspace (rev ?t)"
  have u: "?u \<noteq> []" using False by (simp add: strip_def)
  then have hu: "\<not> isspace (hd ?u)" by (rule hd_dropWhile)
  have l: "last (strip s) = hd ?u" using u by (simp add: strip_def last_rev)
  have t: "?t = strip s @ rev (takeWhile isspace (rev ?t))"
    unfolding strip_def by (simp only: rev_dropWhile_rev)
  then have "hd ?t = hd (strip s)" using False by (metis hd_append2)
  moreover have "?t \<noteq> []" using t False by (metis Nil_is_append_conv)
  then have "\<not> isspace (hd ?t)" by (rule hd_dropWhile)
  ultimately show ?thesis using hu l by simp
qed

lemma strip_fixed: "s = [] \<or> (\<not> isspace (hd s) \<and> \<not> isspace (last s)) \<Longrightarrow> strip s = s"
proof (cases "s = []")
  case True
  then show ?thesis by (simp add: strip_def)
next
  case False
  assume "s = [] \<or> (\<not> isspace (hd s) \<and> \<not> isspace (last s))"
  with False have h: "\<not> isspace (hd s)" "\<not> isspace (last s)" by auto
  have 1: "dropWhile isspace s = s" using h(1) by (simp add: dropWhile_fixed)
  have "hd (rev s) = last s" using False by (simp add: hd_rev)
  then have 2: "dropWhile isspace (rev s) = rev s" using h(2) by (simp add: dropWhile_fixed)
  show ?thesis unfolding strip_def 1 2 by simp
qed

lemma strip_idem: "strip (strip s) = strip s"
  using strip_ends[of s] by (rule strip_fixed)









text \<open>
  Claim C10. The item name normalizer is idempotent: its result holds no parenthesized
  segment and is trimmed, so a second pass changes nothing.
\<close>

theorem extract_item_name_idempotent:
  "extract_item_name (extract_item_name s) = extract_item_name s"
proof -
  have "\<not> has_segment (strip (re_sub_empty paren_rx s))"
    using has_segment_strip no_segment_re_sub_paren by blast
  then have "re_sub_empty paren_rx (strip (re_sub_empty paren_rx s)) = strip (re_sub_empty paren_rx s)"
    by (rule re_sub_paren_id)
  then show ?thesis by (simp add: extract_item_name_def strip_idem)
qed

lemma parse_price_value: "parse_price v = Inr (price_value v)"
  using parse_price_total[of v] by (auto simp: price_value_def)

lemma get_price_eq: "get_price w item = Inr (item_result w item)"
  by (simp add: get_price_def item_result_def Let_def parse_price_value)

lemma gather_prices_eq:
  "gather_prices web i items = Inr (map (\<lambda>(j, item). item_result (web j) item) (zip [i..<i + length items] items))"
proof (induction items arbitrary: i)
  case Nil
  then show ?case by simp
next
  case (Cons item items)
  have "i < i + length (item # items)" by simp
  from upt_conv_Cons[OF this]
  have "[i..<i + length (item # items)] = i # [Suc i..<Suc i + length items]"
    by simp
  then show ?case using Cons.IH[of "Suc i"] by (simp add: get_price_eq)
qed

lemma pricing_fanout_eq:
  "pricing_fanout web items =
     Inr (map (\<lambda>i. fst (item_result (web i) (items ! i))) [0..<length items],
          (\<Sum>i<length items. fst (item_result (web i) (items ! i))),
          map (\<lambda>i. snd (item_result (web i) (items ! i))) [0..<length items])"
proof -
  have z: "zip [0..<length items] items = map (\<lambda>i. (i, items ! i)) [0..<length items]"
    by (rule nth_equalityI) simp_all
  have "gather_prices web 0 items = Inr (map (\<lambda>i. item_result (web i) (items ! i)) [0..<length items])"
    unfolding gather_prices_eq[of web 0 items] using z by (simp add: comp_def)
  moreover have "sum_list (map (\<lambda>i. fst (item_result (web i) (items ! i))) [0..<length items])
      = (\<Sum>i<length items. fst (item_result (web i) (items ! i)))"
    by (simp add: interv_sum_list_conv_sum_set_nat atLeast0LessThan)
  ultimately show ?thesis
    by (simp add: pricing_fanout_def Let_def comp_def)
qed

text \<open>
  Claim C3. The pricing fanout returns one price per item, in the order of the items, and
  never raises. The first lookup of an item asks for its full raw text; a second lookup, for
  the normalized name, is issued exactly when the first extracted price is 0.0 and the
  normalized name differs from the raw text, and then its extracted price is the price of
  the item; otherwise the first extracted price is. The total is the sum of the prices.
\<close>

theorem pricing_fanout_spec:
  "\<exists>prices total queries.
      pricing_fanout web items = Inr (prices, total, queries) \<and>
      length prices = length items \<and> length queries = length items \<and>
      total = sum_list prices \<and>
      (\<forall>i<length items.
         \<exists>p1. parse_price (web i 0 (price_query (items ! i))) = Inr p1 \<and>
           hd (queries ! i) = price_query (items ! i) \<and>
           (if p1 = 0 \<and> extract_item_name (items ! i) \<noteq> items ! i
            then queries ! i =
                   [price_query (items ! i), price_query (extract_item_name (items ! i))] \<and>
                 parse_price (web i 1 (price_query (extract_item_name (items ! i)))) =
                   Inr (prices ! i)
            else queries ! i = [price_query (items ! i)] \<and> prices ! i = p1))"
proof -
  let ?r = "\<lambda>i. item_result (web i) (items ! i)"
  let ?prices = "map (\<lambda>i. fst (?r i)) [0..<length items]"
  let ?queries = "map (\<lambda>i. snd (?r i)) [0..<length items]"
  have s: "(\<Sum>i<length items. fst (?r i)) = sum_list ?prices"
    by (simp add: interv_sum_list_conv_sum_set_nat atLeast0LessThan)
  have each: "\<exists>p1. parse_price (web i 0 (price_query (items ! i))) = Inr p1 \<and>
           hd (?queries ! i) = price_query (items ! i) \<and>
           (if p1 = 0 \<and> extract_item_name (items ! i) \<noteq> items ! i
            then ?queries ! i =
                   [price_query (items ! i), price_query (extract_item_name (items ! i))] \<and>
                 parse_price (web i 1 (price_query (extract_item_name (items ! i)))) =
                   Inr (?prices ! i)
            else ?queries ! i = [price_query (items ! i)] \<and> ?prices ! i = p1)"
    if "i < length items" for i
  proof (intro exI[of _ "price_value (web i 0 (price_query (items ! i)))"] conjI)
    show "parse_price (web i 0 (price_query (items ! i))) =
        Inr (price_value (web i 0 (price_query (items ! i))))"
      by (rule parse_price_value)
    show "hd (?queries ! i) = price_query (items ! i)"
      using that by (simp add: item_result_def)
    show "if price_value (web i 0 (price_query (items ! i))) = 0 \<and>
             extract_item_name (items ! i) \<noteq> items ! i
          then ?queries ! i =
                 [price_query (items ! i), price_query (extract_item_name (items ! i))] \<and>
               parse_price (web i 1 (price_query (extract_item_name (items ! i)))) =
                 Inr (?prices ! i)
          else ?queries ! i = [price_query (items ! i)] \<and>
               ?prices ! i = price_value (web i 0 (price_query (items ! i)))"
      using that by (simp add: item_result_def parse_price_value)
  qed
  show ?thesis
    apply (rule exI[of _ ?prices], rule exI[of _ "sum_list ?prices"], rule exI[of _ ?queries])
    unfolding pricing_fanout_eq s
    using each by simp
qed

lemma parse_price_350: "parse_price (PyStr ''$3.50'') = Inr 3.5"
proof -
  have "re_search price_pre price_grp ''$3.50'' = Some ([], ''3.50'', [])"
    by code_simp
  moreover have "py_float ''3.50'' = Inr 3.5"
    by (simp add: py_float_def isdigit_def nat_of_digits_def digit_val_def)
  ultimately show ?thesis by (simp add: parse_price_def)
qed

lemma parse_price_120: "parse_price (PyStr ''$1.20'') = Inr 1.2"
proof -
  have "re_search price_pre price_grp ''$1.20'' = Some ([], ''1.20'', [])"
    by code_simp
  moreover have "py_float ''1.20'' = Inr 1.2"
    by (simp add: py_float_def isdigit_def nat_of_digits_def digit_val_def)
  ultimately show ?thesis by (simp add: parse_price_def)
qed

lemma parse_price_no_data: "parse_price (PyStr ''no data'') = Inr 0"
proof -
  have "re_search price_pre price_grp ''no data'' = None"
    by code_simp
  then show ?thesis by (simp add: parse_price_def)
qed

lemma price_value_simps:
  "price_value (PyStr ''$3.50'') = 3.5"
  "price_value (PyStr ''$1.20'') = 1.2"
  "price_value (PyStr ''no data'') = 0"
  by (simp_all add: price_value_def parse_price_350 parse_price_120 parse_price_no_data)

lemma item_name_rice: "extract_item_name ''Rice'' = ''Rice''"
  by code_simp

lemma item_name_rice_2lb: "extract_item_name ''Rice (2 lb)'' = ''Rice''"
  by code_simp

lemma price_query_inject [simp]: "price_query x = price_query y \<longleftrightarrow> x = y"
  by (simp add: price_query_def)

theorem pricing_fanout_spec_witness:
  "pricing_fanout c3_web [''Milk (1 gallon)'', ''Rice (2 lb)''] =
     Inr ([3.5, 1.2], 4.7,
          [[price_query ''Milk (1 gallon)''], [price_query ''Rice (2 lb)'', price_query ''Rice'']])"
proof -
  let ?items = "[''Milk (1 gallon)'', ''Rice (2 lb)'']"
  from pricing_fanout_spec[of c3_web ?items]
  obtain prices total queries where
    r: "pricing_fanout c3_web ?items = Inr (prices, total, queries)"
    and lp: "length prices = 2" and lq: "length queries = 2"
    and t: "total = sum_list prices"
    and each: "\<And>i. i < 2 \<Longrightarrow>
         \<exists>p1. parse_price (c3_web i 0 (price_query (?items ! i))) = Inr p1 \<and>
           hd (queries ! i) = price_query (?items ! i) \<and>
           (if p1 = 0 \<and> extract_item_name (?items ! i) \<noteq> ?items ! i
            then queries ! i =
                   [price_query (?items ! i), price_query (extract_item_name (?items ! i))] \<and>
                 parse_price (c3_web i 1 (price_query (extract_item_name (?items ! i)))) =
                   Inr (prices ! i)
            else queries ! i = [price_query (?items ! i)] \<and> prices ! i = p1)"
    by auto
  from each[of 0] have 0: "queries ! 0 = [price_query ''Milk (1 gallon)'']" "prices ! 0 = 3.5"
    by (auto simp: c3_web_def parse_price_350)
  from each[of 1] have 1: "queries ! 1 = [price_query ''Rice (2 lb)'', price_query ''Rice'']"
      "prices ! 1 = 1.2"
    by (auto simp: c3_web_def parse_price_120 parse_price_no_data item_name_rice_2lb)
  have p: "prices = [prices ! 0, prices ! 1]" using lp
    by (intro nth_equalityI) (auto simp: less_Suc_eq numeral_2_eq_2)
  have q: "queries = [queries ! 0, queries ! 1]" using lq
    by (intro nth_equalityI) (auto simp: less_Suc_eq numeral_2_eq_2)
  have "prices = [3.5, 1.2]"
    by (subst p) (simp only: 0 1)
  moreover have
    "queries = [[price_query ''Milk (1 gallon)''], [price_query ''Rice (2 lb)'', price_query ''Rice'']]"
    by (subst q) (simp only: 0 1)
  ultimately have "pricing_fanout c3_web ?items =
     Inr ([3.5, 1.2], sum_list [3.5, 1.2],
          [[price_query ''Milk (1 gallon)''], [price_query ''Rice (2 lb)'', price_query ''Rice'']])"
    using r t by simp
  then show ?thesis by simp
qed

lemma fanout_milk_rice:
  assumes "web 0 0 (price_query ''Milk (1 gallon)'') = PyStr ''$3.50''"
    and "web 1 0 (price_query ''Rice'') = PyStr ''no data''"
  shows "pricing_fanout web [''Milk (1 gallon)'', ''Rice''] =
     Inr ([3.5, 0], 3.5, [[price_query ''Milk (1 gallon)''], [price_query ''Rice'']])"
proof -
  have "item_result (web 0) ''Milk (1 gallon)'' = (3.5, [price_query ''Milk (1 gallon)''])"
    using assms(1) by (simp add: item_result_def price_value_simps)
  moreover have "item_result (web 1) ''Rice'' = (0, [price_query ''Rice''])"
    using assms(2) by (simp add: item_result_def price_value_simps item_name_rice)
  moreover have "[0..<2] = [0, 1]" by (simp add: upt_rec)
  ultimately show ?thesis
    unfolding pricing_fanout_eq by (simp add: lessThan_Suc numeral_2_eq_2)
qed

text \<open>
  Claim C4, as stated, fails. With the stub of the claim, "Rice" gets one lookup only: its
  normalized name is the raw text itself, so the guard \<^verbatim>\<open>item_name_only != item_text\<close>
  of \<^verbatim>\<open>get_price\<close> skips the fallback, and the price of "Rice" stays 0.0.
\<close>

theorem c4_fanout_counterexample:
  "c4_web 0 0 (price_query ''Milk (1 gallon)'') = PyStr ''$3.50'' \<and>
   c4_web 1 0 (price_query ''Rice'') = PyStr ''no data'' \<and>
   c4_web 1 1 (price_query ''Rice'') = PyStr ''$1.20'' \<and>
   pricing_fanout c4_web [''Milk (1 gallon)'', ''Rice''] \<noteq>
     Inr ([3.5, 1.2], 4.7,
          [[price_query ''Milk (1 gallon)''], [price_query ''Rice'', price_query ''Rice'']])"
proof -
  have a: "c4_web 0 0 (price_query ''Milk (1 gallon)'') = PyStr ''$3.50''"
    and b: "c4_web 1 0 (price_query ''Rice'') = PyStr ''no data''"
    and c: "c4_web 1 1 (price_query ''Rice'') = PyStr ''$1.20''"
    by (simp_all add: c4_web_def)
  from fanout_milk_rice[of c4_web, OF a b] a b c show ?thesis by simp
qed

text \<open>
  Claim C4, amended. For the items "Milk (1 gallon)" and "Rice", with a lookup that answers
  "$3.50" to the full query for the milk and "no data" to the full query for the rice, the
  fanout returns the prices 3.50 and 0.0 with total 3.50, and issues exactly one lookup for
  each item: the full query.
\<close>

theorem c4_fanout_amended:
  "web 0 0 (price_query ''Milk (1 gallon)'') = PyStr ''$3.50'' \<Longrightarrow>
   web 1 0 (price_query ''Rice'') = PyStr ''no data'' \<Longrightarrow>
   pricing_fanout web [''Milk (1 gallon)'', ''Rice''] =
     Inr ([3.5, 0], 3.5, [[price_query ''Milk (1 gallon)''], [price_query ''Rice'']])"
  by (rule fanout_milk_rice)

theorem c4_fanout_amended_witness:
  "pricing_fanout c4_web [''Milk (1 gallon)'', ''Rice''] =
     Inr ([3.5, 0], 3.5, [[price_query ''Milk (1 gallon)''], [price_query ''Rice'']])"
  by (rule c4_fanout_amended[of c4_web]) (simp_all add: c4_web_def)

lemma ms_Plus_Cls:
  "ms (Plus (Cls p)) s = (case s of [] \<Rightarrow> [] | c # cs \<Rightarrow> if p c then ms (Star (Cls p)) cs else [])"
  by (cases s) (simp_all add: Plus_def)

lemma first_Plus_Cls:
  "first (Plus (Cls p)) s = (case s of [] \<Rightarrow> None | c # cs \<Rightarrow> if p c then Some (dropWhile p cs) else None)"
proof (cases s)
  case Nil
  then show ?thesis by (simp add: first_def ms_Plus_Cls)
next
  case (Cons c cs)
  show ?thesis
  proof (cases "p c")
    case True
    have "first (Plus (Cls p)) (c # cs) = first (Star (Cls p)) cs"
      using True by (simp add: first_def ms_Plus_Cls)
    with True Cons show ?thesis by simp
  next
    case False
    with Cons show ?thesis by (simp add: first_def ms_Plus_Cls)
  qed
qed




















declare block_end.simps [simp del]

lemma ascii_lower_nonletter [simp]:
  "ascii_lower x = CHR ''#'' \<longleftrightarrow> x = CHR ''#''"
  "ascii_lower x = CHR '':'' \<longleftrightarrow> x = CHR '':''"
  "ascii_lower x = CHR ''-'' \<longleftrightarrow> x = CHR ''-''"
  "ascii_lower x = CHR '' '' \<longleftrightarrow> x = CHR '' ''"
  "ascii_lower x = NL \<longleftrightarrow> x = NL"
  by (auto simp: ascii_lower_def split: if_splits)

lemma ascii_lower_const [simp]:
  "ascii_lower CHR ''#'' = CHR ''#''" "ascii_lower CHR '':'' = CHR '':''"
  "ascii_lower CHR ''-'' = CHR ''-''" "ascii_lower CHR '' '' = CHR '' ''"
  "ascii_lower NL = NL"
  by (simp_all add: ascii_lower_def)

lemma ILit_nonletter:
  "ILit CHR ''#'' = Lit CHR ''#''" "ILit CHR '':'' = Lit CHR '':''"
  "ILit CHR ''-'' = Lit CHR ''-''" "ILit CHR '' '' = Lit CHR '' ''"
  "ILit NL = Lit NL"
  by (simp_all add: ILit_def Lit_def)

lemma ms_Cat_ILit:
  "ms (Cat (ILit a) r) s =
     (case s of [] \<Rightarrow> [] | c # cs \<Rightarrow> if ascii_lower c = ascii_lower a then ms r cs else [])"
  by (cases s) (simp_all add: ILit_def)

lemma ms_cats_ILit:
  "ms (cats (map ILit w)) s =
     (if length w \<le> length s \<and> map ascii_lower (take (length w) s) = map ascii_lower w
      then [drop (length w) s] else [])"
proof (induction w arbitrary: s)
  case Nil
  then show ?case by simp
next
  case (Cons a w)
  show ?case
  proof (cases s)
    case s: Nil
    show ?thesis
      unfolding s list.map cats.simps ms_Cat_ILit by simp
  next
    case s: (Cons c cs)
    show ?thesis
      unfolding s using Cons.IH[of cs]
      by (simp add: ms_Cat_ILit del: ms.simps(3))
  qed
qed

lemma ms_ne_Star [simp]: "ms (Star a) s \<noteq> []"
  by (simp add: ms.simps(5))

lemma first_Cat_total:
  assumes "\<And>x. ms b x \<noteq> []"
  shows "first (Cat a b) s = (case first a s of None \<Rightarrow> None | Some x \<Rightarrow> first b x)"
proof (cases "ms a s")
  case Nil
  then show ?thesis by (simp add: first_def)
next
  case (Cons x xs)
  obtain y ys where y: "ms b x = y # ys" using assms[of x] by (cases "ms b x") auto
  with Cons show ?thesis by (simp add: first_def)
qed

lemma first_Cat_Cls:
  "first (Cat (Cls p) b) s = (case s of [] \<Rightarrow> None | c # cs \<Rightarrow> if p c then first b cs else None)"
  by (cases s) (simp_all add: first_def)

lemma first_Opt: "first (Opt a) s = (case first a s of None \<Rightarrow> Some s | Some e \<Rightarrow> Some e)"
  by (cases "ms a s") (simp_all add: first_def)

lemma first_Star_None: "first a s = None \<Longrightarrow> first (Star a) s = Some s"
  by (cases "ms a s") (simp_all add: first_def ms.simps(5)[of a s])

lemma first_Star_Some:
  assumes "first a s = Some x" "length x < length s"
  shows "first (Star a) s = first (Star a) x"
proof -
  from assms(1) obtain xs where xs: "ms a s = x # xs"
    by (cases "ms a s") (simp_all add: first_def)
  obtain y ys where y: "ms (Star a) x = y # ys" by (cases "ms (Star a) x") auto
  show ?thesis
    unfolding first_def ms.simps(5)[of a s] xs using assms(2) y by simp
qed

lemma dropWhile_not_nl: "dropWhile not_nl s = x # r \<Longrightarrow> x = NL"
  using hd_dropWhile[of not_nl s] by auto

lemma first_line_rest:
  "first (Cat (Plus (Cls not_nl)) (Opt (Lit NL))) s =
     (case s of [] \<Rightarrow> None
      | c # cs \<Rightarrow> if c \<noteq> NL then Some (case dropWhile not_nl cs of [] \<Rightarrow> [] | _ # r \<Rightarrow> r)
                 else None)"
proof -
  have tot: "\<And>x. ms (Opt (Lit NL)) x \<noteq> []" by simp
  show ?thesis
  proof (cases s)
    case Nil
    then show ?thesis by (simp add: first_Cat_total[OF tot] first_Plus_Cls)
  next
    case (Cons c cs)
    show ?thesis
    proof (cases "c = NL")
      case True
      with Cons show ?thesis by (simp add: first_Cat_total[OF tot] first_Plus_Cls)
    next
      case False
      have "first (Opt (Lit NL)) y = Some (case y of [] \<Rightarrow> [] | _ # r \<Rightarrow> r)"
        if "y = dropWhile not_nl cs" for y
      proof (cases y)
        case Nil
        then show ?thesis by (simp add: first_Opt Lit_def)
      next
        case (Cons x r)
        with that dropWhile_not_nl[of cs x r] have "x = NL" by simp
        with Cons show ?thesis by (simp add: first_Opt Lit_def)
      qed
      then show ?thesis
        using False Cons by (simp add: first_Cat_total[OF tot] first_Plus_Cls)
    qed
  qed
qed

lemma item_head_Cons3:
  "item_head (a # b # c # cs) =
     (if a = CHR ''-'' \<and> b = CHR '' '' \<and> c \<noteq> NL
      then Some (case dropWhile not_nl cs of [] \<Rightarrow> [] | _ # r \<Rightarrow> r) else None)"
  by (simp add: item_head_def)

lemma item_head_short [simp]:
  "item_head [] = None" "item_head [a] = None" "item_head [a, b] = None"
  by (simp_all add: item_head_def)

lemma item_head_Some_iff:
  "item_head s = Some r \<longleftrightarrow>
     (\<exists>c cs. s = CHR ''-'' # CHR '' '' # c # cs \<and> c \<noteq> NL \<and>
        r = (case dropWhile not_nl cs of [] \<Rightarrow> [] | _ # r \<Rightarrow> r))"
proof (cases s)
  case Nil
  then show ?thesis by simp
next
  case s: (Cons a s1)
  show ?thesis
  proof (cases s1)
    case Nil
    with s show ?thesis by simp
  next
    case s1: (Cons b s2)
    show ?thesis
    proof (cases s2)
      case Nil
      with s s1 show ?thesis by simp
    next
      case (Cons c cs)
      show ?thesis unfolding s s1 Cons item_head_Cons3 by auto
    qed
  qed
qed

lemma first_item_rx: "first item_rx s = item_head s"
proof -
  have "first item_rx s =
      (case s of [] \<Rightarrow> None
       | a # s1 \<Rightarrow> if a = CHR ''-'' then
           (case s1 of [] \<Rightarrow> None
            | b # s2 \<Rightarrow> if b = CHR '' '' then first (Cat (Plus (Cls not_nl)) (Opt (Lit NL))) s2
                        else None)
           else None)"
    unfolding ILit_nonletter unfolding Lit_def first_Cat_Cls ..
  also have "\<dots> = item_head s"
  proof (cases s)
    case Nil
    then show ?thesis by simp
  next
    case s: (Cons a s1)
    show ?thesis
    proof (cases s1)
      case Nil
      with s show ?thesis by simp
    next
      case s1: (Cons b s2)
      show ?thesis
      proof (cases s2)
        case Nil
        with s s1 show ?thesis by (simp add: first_line_rest)
      next
        case (Cons c cs)
        with s s1 show ?thesis by (simp add: item_head_Cons3 first_line_rest)
      qed
    qed
  qed
  finally show ?thesis .
qed

lemma item_head_length: "item_head s = Some r \<Longrightarrow> length r < length s"
proof -
  assume a: "item_head s = Some r"
  then obtain c cs where s: "s = CHR ''-'' # CHR '' '' # c # cs"
    and r: "r = (case dropWhile not_nl cs of [] \<Rightarrow> [] | _ # r \<Rightarrow> r)"
    unfolding item_head_Some_iff by blast
  have "length (dropWhile not_nl cs) \<le> length cs" by (rule length_dropWhile_le)
  moreover have "length (case d of [] \<Rightarrow> [] | _ # r \<Rightarrow> r) \<le> length d" for d :: string
    by (cases d) auto
  ultimately have "length r \<le> length cs" unfolding r by (rule order_trans[rotated])
  then show ?thesis unfolding s by simp
qed

lemma block_end_unfold:
  "block_end s = (case item_head s of None \<Rightarrow> s | Some r \<Rightarrow> block_end r)"
  using item_head_length[of s]
  by (subst block_end.simps) (simp split: option.split)

lemma first_Star_item: "first (Star item_rx) s = Some (block_end s)"
proof (induction s rule: length_induct)
  case (1 s)
  show ?case
  proof (cases "item_head s")
    case None
    then have "first item_rx s = None" by (simp only: first_item_rx)
    then have "first (Star item_rx) s = Some s" by (rule first_Star_None)
    then show ?thesis using None by (subst block_end_unfold) simp
  next
    case (Some r)
    then have f: "first item_rx s = Some r" by (simp only: first_item_rx)
    have l: "length r < length s" using Some by (rule item_head_length)
    have "first (Star item_rx) s = first (Star item_rx) r"
      using f l by (rule first_Star_Some)
    also have "\<dots> = Some (block_end r)" using 1 l by blast
    finally show ?thesis using Some by (subst block_end_unfold) simp
  qed
qed

lemma first_grocery_grp:
  "first grocery_grp s = (case item_head s of None \<Rightarrow> None | Some r \<Rightarrow> Some (block_end r))"
proof -
  have tot: "\<And>x. ms (Star item_rx) x \<noteq> []" by simp
  show ?thesis
    unfolding grocery_grp_def Plus_def[of item_rx] first_Cat_total[OF tot] first_item_rx
    by (simp add: first_Star_item split: option.split)
qed

lemma first_match_append:
  "first_match g (xs @ ys) =
     (case first_match g xs of Some v \<Rightarrow> Some v | None \<Rightarrow> first_match g ys)"
  by (induction xs) (simp_all split: option.split)

lemma first_match_greedy:
  assumes "\<And>c cs. p c \<Longrightarrow> first g (c # cs) = None"
  shows "first_match g (ms (Star (Cls p)) s) = first_match g [dropWhile p s]"
proof (induction s)
  case Nil
  then show ?case by simp
next
  case (Cons c cs)
  show ?case
  proof (cases "p c")
    case True
    have "first_match g [c # cs] = None" using assms[OF True] by simp
    then have "first_match g (ms (Star (Cls p)) cs @ [c # cs]) = first_match g (ms (Star (Cls p)) cs)"
      unfolding first_match_append by (simp split: option.split)
    with True Cons show ?thesis by simp
  next
    case False
    then show ?thesis by simp
  qed
qed

lemma lower_grocery_list: "map ascii_lower ''Grocery List'' = ''grocery list''"
  by (simp add: ascii_lower_def)

lemma isspace_not_g: "isspace c \<Longrightarrow> ascii_lower c \<noteq> CHR ''g''"
  by (auto simp: isspace_def ascii_lower_def)

lemma ms_after_words:
  "ms (Cat (Opt (ILit CHR '':'')) (Plus (Cls crlf))) y =
     ms (Plus (Cls crlf)) (case y of [] \<Rightarrow> [] | c # z \<Rightarrow> if c = CHR '':'' then z else c # z)"
proof (cases y)
  case Nil
  then show ?thesis by (simp add: ILit_nonletter Lit_def ms_Plus_Cls)
next
  case (Cons c z)
  show ?thesis
  proof (cases "c = CHR '':''")
    case True
    have "ms (Plus (Cls crlf)) (CHR '':'' # z) = []" by (simp add: ms_Plus_Cls)
    with True Cons show ?thesis by (simp add: ILit_nonletter Lit_def)
  next
    case False
    with Cons show ?thesis by (simp add: ILit_nonletter Lit_def)
  qed
qed

lemma ms_gl_rx:
  "ms gl_rx x =
     (if 12 \<le> length x \<and> map ascii_lower (take 12 x) = ''grocery list''
      then [drop 12 x] else [])"
proof -
  have l: "length ''Grocery List'' = 12" by simp
  show ?thesis
    using ms_cats_ILit[of "''Grocery List''" x] unfolding l lower_grocery_list gl_rx_def .
qed

lemma ms_words:
  "ms words_rx x =
     (if 12 \<le> length x \<and> map ascii_lower (take 12 x) = ''grocery list''
      then ms (Plus (Cls crlf))
             (case drop 12 x of [] \<Rightarrow> [] | c # z \<Rightarrow> if c = CHR '':'' then z else c # z)
      else [])"
proof -
  have "ms words_rx x =
      concat (map (ms (Cat (Opt (ILit CHR '':'')) (Plus (Cls crlf)))) (ms gl_rx x))"
    unfolding words_rx_def by (rule ms.simps(3))
  moreover have "concat (map f (if C then [a] else [])) = (if C then f a else [])"
    for f :: "string \<Rightarrow> string list" and C a
    by simp
  ultimately show ?thesis
    unfolding ms_gl_rx by (simp only: ms_after_words)
qed

lemma grocery_pre_words:
  "grocery_pre = Cat (Plus (Cls (\<lambda>x. x = CHR ''#''))) (Cat (Star (Cls isspace)) words_rx)"
  by (simp only: grocery_pre_def words_rx_def gl_rx_def ILit_nonletter(1) Lit_def)

lemma words_first_char:
  assumes "ms words_rx (c # cs) \<noteq> []"
  shows "ascii_lower c = CHR ''g''"
proof -
  from assms have "map ascii_lower (take 12 (c # cs)) = ''grocery list''"
    unfolding ms_words by (simp split: if_splits)
  then show ?thesis by simp
qed

lemma rejects_space_words: "rejects isspace words_rx"
  unfolding rejects_def using words_first_char isspace_not_g by blast

lemma ms_space_words:
  "ms (Cat (Star (Cls isspace)) words_rx) s = ms words_rx (dropWhile isspace s)"
  by (rule ms_Cat_Star_Cls[OF rejects_space_words])

lemma rejects_hash_space_words:
  "rejects (\<lambda>x. x = CHR ''#'') (Cat (Star (Cls isspace)) words_rx)"
proof -
  have "ms words_rx (CHR ''#'' # cs) = []" for cs
    using words_first_char[of "CHR ''#''" cs] by auto
  moreover have "\<not> isspace CHR ''#''" by (simp add: isspace_def)
  ultimately show ?thesis
    unfolding rejects_def ms_space_words by simp
qed

lemma ms_grocery_pre:
  "ms grocery_pre s =
     (case header_rest s of None \<Rightarrow> [] | Some z \<Rightarrow> ms (Plus (Cls crlf)) z)"
proof -
  have "ms grocery_pre s =
      (case s of [] \<Rightarrow> []
       | c # cs \<Rightarrow> if c = CHR ''#''
           then ms words_rx (dropWhile isspace (dropWhile (\<lambda>x. x = CHR ''#'') cs)) else [])"
    unfolding grocery_pre_words
      ms_Cat_Plus_Cls[OF rejects_hash_space_words] ms_space_words ..
  then show ?thesis
    unfolding ms_words header_rest_def Let_def
    by (cases s) simp_all
qed

lemma first_grocery_grp_crlf: "crlf c \<Longrightarrow> first grocery_grp (c # cs) = None"
proof -
  assume "crlf c"
  then have "c \<noteq> CHR ''-''" by auto
  then have "item_head (c # cs) = None"
    by (cases cs; cases "tl cs") (simp_all add: item_head_Cons3)
  then show ?thesis by (simp add: first_grocery_grp)
qed

lemma re_match_grocery: "re_match grocery_pre grocery_grp s = grocery_head s"
proof (cases "header_rest s")
  case None
  then show ?thesis by (simp add: re_match_def ms_grocery_pre grocery_head_def)
next
  case (Some z)
  show ?thesis
  proof (cases z)
    case Nil
    with Some show ?thesis
      by (simp add: re_match_def ms_grocery_pre grocery_head_def ms_Plus_Cls)
  next
    case (Cons c cs)
    show ?thesis
    proof (cases "crlf c")
      case False
      with Some Cons show ?thesis
        by (simp add: re_match_def ms_grocery_pre grocery_head_def ms_Plus_Cls)
    next
      case True
      have "re_match grocery_pre grocery_grp s = first_match grocery_grp (ms (Star (Cls crlf)) cs)"
        using Some Cons True by (simp add: re_match_def ms_grocery_pre ms_Plus_Cls)
      also have "\<dots> = first_match grocery_grp [dropWhile crlf cs]"
        by (rule first_match_greedy) (rule first_grocery_grp_crlf)
      also have "\<dots> = grocery_head s"
        using Some Cons True
        by (cases "item_head (dropWhile crlf cs)")
           (simp_all add: grocery_head_def first_grocery_grp Let_def)
      finally show ?thesis .
    qed
  qed
qed

lemma dropWhile_all_append:
  assumes "list_all P ws" "ys = [] \<or> \<not> P (hd ys)"
  shows "dropWhile P (ws @ ys) = ys"
proof -
  have "dropWhile P ys = ys" using assms(2) by (rule dropWhile_fixed)
  moreover have "dropWhile P (ws @ ys) = dropWhile P ys"
    using assms(1) by (induction ws) auto
  ultimately show ?thesis by simp
qed


lemma lower_g_not_space: "ascii_lower c = CHR ''g'' \<Longrightarrow> \<not> isspace c \<and> c \<noteq> CHR ''#''"
  using isspace_not_g[of c] by (auto simp: ascii_lower_def)

lemma words_shape:
  assumes "map ascii_lower w = ''grocery list''"
  shows "length w = 12" "w \<noteq> []" "ascii_lower (hd w) = CHR ''g''"
proof -
  have "length (map ascii_lower w) = 12" unfolding assms by simp
  then show l: "length w = 12" by simp
  then show ne: "w \<noteq> []" by auto
  have "hd (map ascii_lower w) = CHR ''g''" unfolding assms by simp
  then show "ascii_lower (hd w) = CHR ''g''" using ne by (simp add: hd_map)
qed

lemma header_rest_I:
  assumes ws: "list_all isspace ws" and w: "map ascii_lower w = ''grocery list''"
    and colon: "colon = [] \<or> colon = '':''"
    and z: "colon = [] \<longrightarrow> z = [] \<or> hd z \<noteq> CHR '':''"
  shows "header_rest (replicate (Suc n) CHR ''#'' @ ws @ w @ colon @ z) = Some z"
proof -
  note sh = words_shape[OF w]
  let ?t = "w @ colon @ z"
  have hdt: "hd ?t = hd w" using sh(2) by simp
  have t1: "\<not> isspace (hd ?t)" "hd ?t \<noteq> CHR ''#''"
    using lower_g_not_space[OF sh(3)] hdt by simp_all
  have "ws @ ?t = [] \<or> \<not> (\<lambda>c. c = CHR ''#'') (hd (ws @ ?t))"
  proof (cases ws)
    case Nil
    then show ?thesis using t1 by simp
  next
    case (Cons a ws')
    then have "isspace a" using ws by simp
    then have "a \<noteq> CHR ''#''" by (auto simp: isspace_def)
    with Cons show ?thesis by simp
  qed
  then have d1: "dropWhile (\<lambda>c. c = CHR ''#'') (replicate n CHR ''#'' @ ws @ ?t) = ws @ ?t"
    by (intro dropWhile_all_append) (simp_all add: list_all_iff)
  have d2: "dropWhile isspace (ws @ ?t) = ?t"
    using ws t1 by (intro dropWhile_all_append) simp_all
  have tk: "take 12 ?t = w" "drop 12 ?t = colon @ z" using sh(1) by simp_all
  have fin: "(case colon @ z of [] \<Rightarrow> [] | y # z' \<Rightarrow> if y = CHR '':'' then z' else y # z') = z"
    using colon z by (cases z) auto
  have "12 \<le> length ?t" using sh(1) by simp
  then show ?thesis
    unfolding header_rest_def
    using d1 d2 tk fin w by (simp add: Let_def)
qed

lemma grocery_head_I:
  assumes ws: "list_all isspace ws" and w: "map ascii_lower w = ''grocery list''"
    and colon: "colon = [] \<or> colon = '':''"
    and nls: "nls \<noteq> []" "list_all crlf nls"
    and x: "x = [] \<or> \<not> crlf (hd x)"
  shows "grocery_head (replicate (Suc n) CHR ''#'' @ ws @ w @ colon @ nls @ x) =
     (case item_head x of None \<Rightarrow> None
      | Some r \<Rightarrow> Some (take (length x - length (block_end r)) x, block_end r))"
proof -
  obtain c cs where n: "nls = c # cs" using nls(1) by (cases nls) auto
  have c: "crlf c" "list_all crlf cs" using nls(2) n by simp_all
  then have "hd (nls @ x) \<noteq> CHR '':''" using n by auto
  then have h: "header_rest (replicate (Suc n) CHR ''#'' @ ws @ w @ colon @ (nls @ x)) = Some (nls @ x)"
    using ws w colon by (intro header_rest_I) simp_all
  have d: "dropWhile crlf (cs @ x) = x" using c(2) x by (rule dropWhile_all_append)
  show ?thesis
    unfolding grocery_head_def using h c(1) d n
    by (cases "item_head x") (simp_all add: Let_def)
qed


lemma grocery_atE:
  assumes "grocery_at s"
  obtains n ws w colon nls c rest where
    "s = replicate (Suc n) CHR ''#'' @ ws @ w @ colon @ nls @ ''- '' @ c # rest"
    "list_all isspace ws" "map ascii_lower w = ''grocery list''"
    "colon = [] \<or> colon = '':''" "nls \<noteq> []" "list_all crlf nls" "c \<noteq> NL"
proof -
  from assms have "\<exists>n ws w colon nls c rest.
        s = replicate (Suc n) CHR ''#'' @ ws @ w @ colon @ nls @ ''- '' @ c # rest \<and>
        list_all isspace ws \<and> map ascii_lower w = ''grocery list'' \<and>
        (colon = [] \<or> colon = '':'') \<and> nls \<noteq> [] \<and> list_all crlf nls \<and> c \<noteq> NL"
    unfolding grocery_at_def .
  then show thesis by (elim exE conjE) (rule that)
qed

lemma grocery_at_imp_head: "grocery_at s \<Longrightarrow> grocery_head s \<noteq> None"
proof -
  assume "grocery_at s"
  then obtain n ws w colon nls c rest where
    s: "s = replicate (Suc n) CHR ''#'' @ ws @ w @ colon @ nls @ ''- '' @ c # rest"
    and h: "list_all isspace ws" "map ascii_lower w = ''grocery list''"
       "colon = [] \<or> colon = '':''" "nls \<noteq> []" "list_all crlf nls" and c: "c \<noteq> NL"
    by (rule grocery_atE)
  let ?x = "''- '' @ c # rest"
  obtain r where r: "item_head ?x = Some r" using c by (simp add: item_head_Cons3)
  have "?x = [] \<or> \<not> crlf (hd ?x)" by simp
  from grocery_head_I[OF h this, of n]
  have "grocery_head s = Some (take (length ?x - length (block_end r)) ?x, block_end r)"
    unfolding s r by simp
  then show ?thesis by simp
qed

lemma takeWhile_eq_replicate:
  "takeWhile (\<lambda>c. c = x) cs = replicate (length (takeWhile (\<lambda>c. c = x) cs)) x"
  by (induction cs) auto

lemma list_all_takeWhile: "list_all P (takeWhile P xs)"
  by (induction xs) auto

lemma header_rest_Nil [simp]: "header_rest [] = None"
  by (simp add: header_rest_def)

lemma header_rest_other: "c \<noteq> CHR ''#'' \<Longrightarrow> header_rest (c # cs) = None"
  by (simp add: header_rest_def)

lemma header_rest_hash:
  "header_rest (CHR ''#'' # cs) =
     (if 12 \<le> length (dropWhile isspace (dropWhile (\<lambda>c. c = CHR ''#'') cs)) \<and>
         map ascii_lower (take 12 (dropWhile isspace (dropWhile (\<lambda>c. c = CHR ''#'') cs))) =
           ''grocery list''
      then Some (case drop 12 (dropWhile isspace (dropWhile (\<lambda>c. c = CHR ''#'') cs)) of
                   [] \<Rightarrow> [] | y # z \<Rightarrow> if y = CHR '':'' then z else y # z)
      else None)"
  unfolding header_rest_def Let_def by (simp only: list.case refl if_True)

lemma header_rest_D:
  assumes "header_rest s = Some z"
  shows "\<exists>n ws w colon. s = replicate (Suc n) CHR ''#'' @ ws @ w @ colon @ z \<and>
           list_all isspace ws \<and> map ascii_lower w = ''grocery list'' \<and>
           (colon = [] \<or> colon = '':'')"
proof -
  obtain cs where s: "s = CHR ''#'' # cs"
  proof (cases s)
    case Nil
    with assms show ?thesis by simp
  next
    case (Cons c cs)
    show ?thesis
    proof (cases "c = CHR ''#''")
      case True
      with Cons that show ?thesis by simp
    next
      case False
      with Cons assms header_rest_other[of c cs] show ?thesis by simp
    qed
  qed
  define d1 where "d1 = dropWhile (\<lambda>c. c = CHR ''#'') cs"
  define x where "x = dropWhile isspace d1"
  define n where "n = length (takeWhile (\<lambda>c. c = CHR ''#'') cs)"
  define C where "C \<longleftrightarrow> 12 \<le> length x \<and> map ascii_lower (take 12 x) = ''grocery list''"
  define v where "v = (case drop 12 x of [] \<Rightarrow> [] | y # z' \<Rightarrow> if y = CHR '':'' then z' else y # z')"
  have hr: "header_rest s = (if C then Some v else None)"
    unfolding s header_rest_hash C_def v_def x_def d1_def ..
  have C: C
  proof (rule ccontr)
    assume "\<not> C"
    then have "header_rest s = None" unfolding hr by (rule if_not_P)
    with assms show False by simp
  qed
  then have "header_rest s = Some v" unfolding hr by (rule if_P)
  with assms have z: "z = v" by simp
  have x12: "map ascii_lower (take 12 x) = ''grocery list''" using C unfolding C_def ..
  have "cs = takeWhile (\<lambda>c. c = CHR ''#'') cs @ d1" unfolding d1_def by simp
  then have cs: "cs = replicate n CHR ''#'' @ d1"
    unfolding n_def using takeWhile_eq_replicate[of "CHR ''#''" cs] by simp
  have d1: "d1 = takeWhile isspace d1 @ x" unfolding x_def by simp
  have x: "x = take 12 x @ drop 12 x" by simp
  obtain colon where colon: "colon = [] \<or> colon = '':''" and dz: "drop 12 x = colon @ z"
  proof (cases "drop 12 x")
    case Nil
    then have "drop 12 x = [] @ z" unfolding z v_def by simp
    then show ?thesis using that by blast
  next
    case (Cons y z')
    show ?thesis
    proof (cases "y = CHR '':''")
      case True
      then have "drop 12 x = '':'' @ z" unfolding z v_def Cons by simp
      then show ?thesis using that by blast
    next
      case False
      then have "drop 12 x = [] @ z" unfolding z v_def Cons by simp
      then show ?thesis using that by blast
    qed
  qed
  have "s = CHR ''#'' # replicate n CHR ''#'' @ d1" unfolding s using cs by simp
  also have "\<dots> = replicate (Suc n) CHR ''#'' @ d1" by simp
  also have "d1 = takeWhile isspace d1 @ take 12 x @ colon @ z"
    using d1 x dz by metis
  finally have f1: "s = replicate (Suc n) CHR ''#'' @ takeWhile isspace d1 @ take 12 x @ colon @ z" .
  have f2: "list_all isspace (takeWhile isspace d1)" by (rule list_all_takeWhile)
  show ?thesis
    by (rule exI[of _ n], rule exI[of _ "takeWhile isspace d1"], rule exI[of _ "take 12 x"],
        rule exI[of _ colon], intro conjI) (fact f1 f2 x12 colon)+
qed

lemma grocery_head_imp_at:
  assumes "grocery_head s \<noteq> None"
  shows "grocery_at s"
proof -
  from assms obtain z where hr: "header_rest s = Some z"
    by (cases "header_rest s") (auto simp: grocery_head_def)
  with assms obtain c0 cs where z: "z = c0 # cs"
    by (cases z) (auto simp: grocery_head_def)
  from assms hr z have c0: "crlf c0"
    by (auto simp: grocery_head_def split: if_splits)
  from assms hr z c0 obtain r where r: "item_head (dropWhile crlf cs) = Some r"
    by (cases "item_head (dropWhile crlf cs)") (auto simp: grocery_head_def Let_def)
  then obtain c rest where x: "dropWhile crlf cs = ''- '' @ c # rest" and c: "c \<noteq> NL"
    unfolding item_head_Some_iff by auto
  define nls where "nls = c0 # takeWhile crlf cs"
  have "cs = takeWhile crlf cs @ dropWhile crlf cs" by simp
  then have zz: "z = nls @ ''- '' @ c # rest" unfolding z nls_def x[symmetric] by simp
  have nls: "nls \<noteq> []" "list_all crlf nls"
    unfolding nls_def using c0 list_all_takeWhile[of crlf cs] by simp_all
  from header_rest_D[OF hr] obtain n ws w colon where
    s: "s = replicate (Suc n) CHR ''#'' @ ws @ w @ colon @ z" and
    h: "list_all isspace ws" "map ascii_lower w = ''grocery list''" "colon = [] \<or> colon = '':''"
    by (elim exE conjE)
  have s': "s = replicate (Suc n) CHR ''#'' @ ws @ w @ colon @ nls @ ''- '' @ c # rest"
    unfolding s zz ..
  show ?thesis
    unfolding grocery_at_def
    by (rule exI[of _ n], rule exI[of _ ws], rule exI[of _ w], rule exI[of _ colon],
        rule exI[of _ nls], rule exI[of _ c], rule exI[of _ rest], intro conjI)
       (fact s' h nls c)+
qed

lemma grocery_head_None_iff: "grocery_head s = None \<longleftrightarrow> \<not> grocery_at s"
  using grocery_head_imp_at[of s] grocery_at_imp_head[of s] by blast

lemma item_lines_simps [simp]:
  "item_lines [] = []"
  "item_lines (it # its) = ''- '' @ it @ NL # item_lines its"
  by (simp_all add: item_lines_def)



lemma takeWhile_item: "NL \<notin> set it \<Longrightarrow> takeWhile not_nl (it @ NL # rest) = it"
  by (induction it) auto










lemma ms_item_pre_other: "s = [] \<or> hd s \<noteq> CHR ''-'' \<Longrightarrow> ms item_pre s = []"
  by (cases s) (auto simp: item_pre_def Lit_def)

lemma re_match_item_other:
  "s = [] \<or> hd s \<noteq> CHR ''-'' \<Longrightarrow> re_match item_pre item_grp s = None"
  by (simp add: re_match_def ms_item_pre_other)


lemma re_match_item_Nil: "re_match item_pre item_grp [] = None"
  by (rule re_match_item_other) simp


declare re_findall.simps [simp del]

lemma re_findall_Nil [simp]: "re_findall item_pre item_grp [] = []"
  by (simp add: re_findall.simps(1) re_match_item_Nil)





lemma no_hash_no_grocery:
  assumes "s = [] \<or> hd s \<noteq> CHR ''#''"
  shows "\<not> grocery_at s"
proof -
  have "header_rest s = None" using assms by (cases s) (auto simp: header_rest_other)
  then have "grocery_head s = None" by (simp add: grocery_head_def)
  then show ?thesis using grocery_head_None_iff[of s] by blast
qed













lemma first_concat_first_match:
  "(case concat (map (ms g) xs) of [] \<Rightarrow> None | e # _ \<Rightarrow> Some e) = map_option snd (first_match g xs)"
proof (induction xs)
  case Nil
  then show ?case by simp
next
  case (Cons x xs)
  show ?case
  proof (cases "ms g x")
    case Nil
    then have "first g x = None" by (simp add: first_def)
    with Nil Cons show ?thesis by simp
  next
    case (Cons e es)
    then have "first g x = Some e" by (simp add: first_def)
    with Cons show ?thesis by simp
  qed
qed

lemma first_Cat_re_match: "first (Cat pre grp) s = map_option snd (re_match pre grp s)"
  unfolding first_def re_match_def ms.simps(3) by (rule first_concat_first_match)

lemma first_grocery: "first (Cat grocery_pre grocery_grp) s = map_option snd (grocery_head s)"
  by (simp only: first_Cat_re_match re_match_grocery)

lemma block_end_length: "length (block_end s) \<le> length s"
proof (induction s rule: length_induct)
  case (1 s)
  show ?case
  proof (cases "item_head s")
    case None
    then show ?thesis by (subst block_end_unfold) simp
  next
    case (Some r)
    then have "length r < length s" by (rule item_head_length)
    with 1 have "length (block_end r) \<le> length r" by blast
    with \<open>length r < length s\<close> Some show ?thesis
      by (subst block_end_unfold) simp
  qed
qed

lemma header_rest_length: "header_rest s = Some z \<Longrightarrow> length z < length s"
proof -
  assume "header_rest s = Some z"
  from header_rest_D[OF this] obtain n ws w colon where
    "s = replicate (Suc n) CHR ''#'' @ ws @ w @ colon @ z"
    by (elim exE conjE)
  then have "length s = Suc n + length ws + length w + length colon + length z"
    by simp
  then show ?thesis by simp
qed

lemma grocery_head_length:
  assumes "grocery_head s = Some (g, e)"
  shows "length e < length s"
proof -
  from assms obtain z where hr: "header_rest s = Some z"
    by (cases "header_rest s") (auto simp: grocery_head_def)
  with assms obtain c0 cs where z: "z = c0 # cs"
    by (cases z) (auto simp: grocery_head_def)
  from assms hr z have c0: "crlf c0"
    by (auto simp: grocery_head_def split: if_splits)
  from assms hr z c0 obtain r where r: "item_head (dropWhile crlf cs) = Some r"
    and e: "e = block_end r"
    by (cases "item_head (dropWhile crlf cs)") (auto simp: grocery_head_def Let_def)
  have "length e \<le> length r" unfolding e by (rule block_end_length)
  also have "length r < length (dropWhile crlf cs)" using r by (rule item_head_length)
  also have "length (dropWhile crlf cs) \<le> length cs" by (rule length_dropWhile_le)
  also have "length cs < length z" unfolding z by simp
  also have "length z < length s" using hr by (rule header_rest_length)
  finally show ?thesis .
qed

lemma re_sub_empty_skip:
  assumes "\<forall>j<length b. first r (drop j (b @ s)) = None"
  shows "re_sub_empty r (b @ s) = b @ re_sub_empty r s"
  using assms
proof (induction b)
  case Nil
  then show ?case by simp
next
  case (Cons c b)
  from Cons.prems have 0: "first r (drop 0 ((c # b) @ s)) = None" by blast
  have "\<forall>j<length b. first r (drop j (b @ s)) = None"
  proof (intro allI impI)
    fix j assume "j < length b"
    then have "Suc j < length (c # b)" by simp
    with Cons.prems have "first r (drop (Suc j) ((c # b) @ s)) = None" by blast
    then show "first r (drop j (b @ s)) = None" by simp
  qed
  then have ih: "re_sub_empty r (b @ s) = b @ re_sub_empty r s" by (rule Cons.IH)
  have "re_sub_empty r (c # (b @ s)) = c # re_sub_empty r (b @ s)"
    using 0 by (subst re_sub_empty.simps(2)) simp
  with ih show ?case by simp
qed

lemma re_sub_empty_match:
  assumes "first r s = Some e" "length e < length s"
  shows "re_sub_empty r s = re_sub_empty r e"
proof -
  obtain c cs where s: "s = c # cs" using assms(2) by (cases s) auto
  show ?thesis unfolding s using assms[unfolded s]
    by (subst re_sub_empty.simps(2)) simp
qed

lemma no_hash_first_grocery:
  assumes "CHR ''#'' \<notin> set u"
  shows "first (Cat grocery_pre grocery_grp) (drop j u) = None"
proof -
  have "drop j u = [] \<or> hd (drop j u) \<noteq> CHR ''#''"
  proof (cases "drop j u")
    case Nil
    then show ?thesis by simp
  next
    case (Cons a list)
    then have "a \<in> set (drop j u)" by simp
    then have "a \<in> set u" by (rule in_set_dropD)
    with assms Cons show ?thesis by auto
  qed
  then have "\<not> grocery_at (drop j u)" by (rule no_hash_no_grocery)
  then have "grocery_head (drop j u) = None" using grocery_head_None_iff by blast
  then show ?thesis by (simp add: first_grocery)
qed

lemma no_hash_re_sub:
  assumes "CHR ''#'' \<notin> set u"
  shows "re_sub_empty (Cat grocery_pre grocery_grp) u = u"
proof -
  have "\<forall>j<length u. first (Cat grocery_pre grocery_grp) (drop j (u @ [])) = None"
    using no_hash_first_grocery[OF assms] by simp
  from re_sub_empty_skip[OF this] show ?thesis by simp
qed

lemma no_hash_extract:
  assumes "CHR ''#'' \<notin> set u"
  shows "extract_grocery_list u = None"
proof -
  have "re_match grocery_pre grocery_grp (drop j u) = None" for j
    using no_hash_first_grocery[OF assms, of j]
    by (cases "re_match grocery_pre grocery_grp (drop j u)") (auto simp: first_Cat_re_match)
  then have "re_search grocery_pre grocery_grp u = None"
    unfolding re_search_None_iff by blast
  then show ?thesis by (simp add: extract_grocery_list_def)
qed

lemma set_strip: "set (strip s) \<subseteq> set s"
proof -
  obtain p q where "s = p @ strip s @ q" using strip_decomp by blast
  then have "set s = set p \<union> set (strip s) \<union> set q" by (metis set_append Un_assoc)
  then show ?thesis by blast
qed

lemma removal_of_single_block:
  assumes "re_search grocery_pre grocery_grp t = Some (pre, block, post)"
    and "CHR ''#'' \<notin> set post"
  shows "remove_grocery_list t = strip (pre @ post)"
proof -
  let ?G = "Cat grocery_pre grocery_grp"
  let ?s = "drop (length pre) t"
  from assms(1) have pre: "pre = take (length pre) t"
    and m: "re_match grocery_pre grocery_grp ?s = Some (block, post)"
    and before: "\<forall>j<length pre. re_match grocery_pre grocery_grp (drop j t) = None"
    unfolding re_search_Some_iff by simp_all
  have t: "t = pre @ ?s" using pre by (metis append_take_drop_id)
  have f: "first ?G ?s = Some post" using m by (simp add: first_Cat_re_match)
  have l: "length post < length ?s"
    using m unfolding re_match_grocery by (rule grocery_head_length)
  have "\<forall>j<length pre. first ?G (drop j (pre @ ?s)) = None"
    using before unfolding t[symmetric] by (simp add: first_Cat_re_match)
  then have "re_sub_empty ?G (pre @ ?s) = pre @ re_sub_empty ?G ?s" by (rule re_sub_empty_skip)
  also have "re_sub_empty ?G ?s = re_sub_empty ?G post" using f l by (rule re_sub_empty_match)
  also have "\<dots> = post" using assms(2) by (rule no_hash_re_sub)
  finally have "re_sub_empty ?G t = pre @ post" unfolding t[symmetric] .
  then show ?thesis by (simp add: remove_grocery_list_def)
qed













end
